theory Spec2Isabelle
  imports Main
begin

section \<open>Time model\<close>

text \<open>
  The bot works in one business time zone (\<open>TZ\<close>, default Europe/Moscow, a zone with a
  fixed UTC offset).  A timezone-aware \<open>datetime\<close> of the source is modelled as the number
  of microseconds of local wall-clock time since local midnight of day 0, a \<open>date\<close> as the
  day number.  \<open>timedelta\<close> arithmetic and comparisons are integer arithmetic.  Python's
  integers do not wrap; \<open>timedelta\<close> and \<open>datetime\<close> raise \<open>OverflowError\<close> outside their range
  (a result past the year 9999, reached only with durations of some thousand million
  minutes).  The model covers the dates and durations below that range, which holds every
  duration of the service catalogue, and has no branch for the overflow.
\<close>

type_synonym datetime = int
type_synonym date = int
type_synonym interval = "datetime \<times> datetime"

definition MINUTE_US :: int where
  "MINUTE_US = 60000000"

definition DAY_US :: int where
  "DAY_US = 1440 * MINUTE_US"

definition timedelta_minutes :: "int \<Rightarrow> int" where
  "timedelta_minutes n = n * MINUTE_US"

definition timedelta_days :: "int \<Rightarrow> int" where
  "timedelta_days n = n"

text \<open>Booking rules of the source; clock times \<open>"HH:MM"\<close> are kept as (hour, minute).\<close>

definition WORK_START :: "int \<times> int" where
  "WORK_START = (8, 0)"

definition WORK_END :: "int \<times> int" where
  "WORK_END = (18, 0)"

definition SLOT_STEP_MIN :: int where
  "SLOT_STEP_MIN = 15"

definition BUFFER_MIN :: int where
  "BUFFER_MIN = 15"

definition dt_on :: "date \<Rightarrow> int \<times> int \<Rightarrow> datetime" where
  "dt_on date_obj hhmm = date_obj * DAY_US + (fst hhmm * 60 + snd hhmm) * MINUTE_US"

definition date_of :: "datetime \<Rightarrow> date" where
  "date_of dt = dt div DAY_US"

definition minute_of :: "datetime \<Rightarrow> int" where
  "minute_of dt = (dt div MINUTE_US) mod 60"

definition hour_of :: "datetime \<Rightarrow> int" where
  "hour_of dt = (dt mod DAY_US) div (60 * MINUTE_US)"

definition hhmm_of :: "datetime \<Rightarrow> int \<times> int" where
  "hhmm_of dt = (hour_of dt, minute_of dt)"

definition replace_second0 :: "datetime \<Rightarrow> datetime" where
  "replace_second0 dt = dt - dt mod MINUTE_US"

section \<open>The calendar oracle\<close>

text \<open>
  Exceptions that escape a modelled function.  \<open>ServiceInitError\<close>: building the calendar
  client in \<open>get_calendar_service\<close> raises; \<open>ValueError\<close>: \<open>strptime\<close> rejects the date or
  time text of a booking; \<open>KeyError\<close>: a booking field is read from an empty draft.
\<close>

datatype error = ServiceInitError | ValueError | KeyError

text \<open>
  An item of \<open>events().list(...)\<close>: its status and its start and end already converted to
  the business zone; \<open>span = None\<close> stands for an item whose fields cannot be read or
  parsed (the source raises there).
\<close>

record raw_event =
  cancelled :: bool
  span :: "(datetime \<times> datetime) option"

datatype service_handle = NoService | Service | InitRaises

record event_body =
  ev_service :: string
  ev_name :: string
  ev_phone :: string
  ev_notes :: string
  ev_username :: string
  ev_start :: datetime
  ev_end :: datetime
  ev_reminders :: "int list"

text \<open>
  The answers of the external calendar during one operation: what
  \<open>get_calendar_service()\<close> yields, what listing a day yields (\<open>None\<close>: the call raises) and
  what inserting an event yields (\<open>None\<close>: the call raises, otherwise id and link).
\<close>

record calendar =
  calendar_service :: service_handle
  events_list :: "date \<Rightarrow> raw_event list option"
  events_insert :: "event_body \<Rightarrow> (string \<times> string) option"

section \<open>Busy intervals and the merge step\<close>

fun merge_step :: "interval list \<Rightarrow> interval \<Rightarrow> interval list" where
  "merge_step merged (s, e) =
     (if merged = [] \<or> s > snd (last merged) then merged @ [(s, e)]
      else butlast merged @ [(fst (last merged), max (snd (last merged)) e)])"

definition merge_intervals :: "interval list \<Rightarrow> interval list" where
  "merge_intervals result = foldl merge_step [] (sort_key fst result)"

text \<open>
  The same step with its effect on the list it works on: \<open>result.sort(key=...)\<close> sorts the
  list \<open>result\<close> in place (Python's sort is stable), the loop fills the new list \<open>merged\<close>
  with entries of its own, and a new list of tuples is returned.  The first component is
  \<open>result\<close> after the step, the second the returned list.
\<close>

definition merge_in_place :: "interval list \<Rightarrow> interval list \<times> interval list" where
  "merge_in_place result =
     (let result' = sort_key fst result in (result', foldl merge_step [] result'))"

fun buffered :: "raw_event list \<Rightarrow> interval list option" where
  "buffered [] = Some []"
| "buffered (e # es) =
     (if cancelled e then buffered es
      else case span e of
             None \<Rightarrow> None
           | Some (st, en) \<Rightarrow>
               map_option
                 (\<lambda>rest. (st - timedelta_minutes BUFFER_MIN, en + timedelta_minutes BUFFER_MIN) # rest)
                 (buffered es))"

definition list_busy_intervals :: "calendar \<Rightarrow> date \<Rightarrow> error + interval list" where
  "list_busy_intervals orc date_obj =
     (case calendar_service orc of
        InitRaises \<Rightarrow> Inl ServiceInitError
      | NoService \<Rightarrow> Inr []
      | Service \<Rightarrow>
          (case events_list orc date_obj of
             None \<Rightarrow> Inr []
           | Some items \<Rightarrow>
               (case buffered items of
                  None \<Rightarrow> Inr []
                | Some result \<Rightarrow> Inr (merge_intervals result))))"

text \<open>
  A view of the loop that walks the sorted list with the interval under construction
  in hand; \<open>foldl_merge_step\<close> shows it computes what the loop of the source computes.
\<close>

fun coalesce :: "interval \<Rightarrow> interval list \<Rightarrow> interval list" where
  "coalesce cur [] = [cur]"
| "coalesce cur (x # xs) =
     (if fst x > snd cur then cur # coalesce x xs
      else coalesce (fst cur, max (snd cur) (snd x)) xs)"

definition covered :: "interval list \<Rightarrow> int set" where
  "covered ivs = (\<Union>iv \<in> set ivs. {fst iv ..< snd iv})"


section \<open>Free slots of a day\<close>

text \<open>
  The first loop of \<open>compute_free_slots_for_date\<close>: \<open>continue\<close> is the first branch,
  \<open>break\<close> the return of the pair in the second.
\<close>

fun free_loop ::
  "datetime \<Rightarrow> datetime \<Rightarrow> interval list \<Rightarrow> interval list \<Rightarrow> datetime
     \<Rightarrow> interval list \<times> datetime" where
  "free_loop day_start day_end [] free cursor = (free, cursor)"
| "free_loop day_start day_end ((bs, be) # busy) free cursor =
     (if be \<le> day_start \<or> bs \<ge> day_end then free_loop day_start day_end busy free cursor
      else
        let free' = (if bs > cursor then free @ [(cursor, min bs day_end)] else free);
            cursor' = max cursor be
        in if cursor' \<ge> day_end then (free', cursor')
           else free_loop day_start day_end busy free' cursor')"

definition free_intervals :: "datetime \<Rightarrow> datetime \<Rightarrow> interval list \<Rightarrow> interval list" where
  "free_intervals day_start day_end busy =
     (case free_loop day_start day_end busy [] day_start of
        (free, cursor) \<Rightarrow> if cursor < day_end then free @ [(cursor, day_end)] else free)"

definition first_candidate :: "datetime \<Rightarrow> datetime" where
  "first_candidate fs =
     (let minutes_mod = minute_of fs mod SLOT_STEP_MIN
      in if minutes_mod \<noteq> 0
         then replace_second0 (fs + timedelta_minutes (SLOT_STEP_MIN - minutes_mod))
         else fs)"

text \<open>
  The \<open>while cur <= fe\<close> loop.  The source reads the clock at every candidate; the model
  takes all readings of one call to be the same instant \<open>now\<close>.
\<close>

function slot_while ::
  "datetime \<Rightarrow> int \<Rightarrow> datetime \<Rightarrow> datetime \<Rightarrow> datetime list \<Rightarrow> datetime list" where
  "slot_while now need fe cur slots =
     (if cur \<le> fe then
        slot_while now need fe (cur + timedelta_minutes SLOT_STEP_MIN)
          (if cur > now then
             (if cur < fe then (if cur + need \<le> fe then slots @ [cur] else slots)
              else (if hhmm_of fe = WORK_END then slots @ [cur] else slots))
           else slots)
      else slots)"
  by pat_completeness auto
termination
  by (relation "measure (\<lambda>(now, need, fe, cur, slots). nat (fe - cur + 1))")
     (auto simp: timedelta_minutes_def SLOT_STEP_MIN_def MINUTE_US_def)

declare slot_while.simps [simp del]

fun slots_loop :: "datetime \<Rightarrow> int \<Rightarrow> interval list \<Rightarrow> datetime list \<Rightarrow> datetime list" where
  "slots_loop now need [] slots = slots"
| "slots_loop now need ((fs, fe) # free) slots =
     slots_loop now need free (slot_while now need fe (first_candidate fs) slots)"

definition compute_free_slots_for_date ::
  "calendar \<Rightarrow> datetime \<Rightarrow> date \<Rightarrow> int \<Rightarrow> error + datetime list" where
  "compute_free_slots_for_date orc now date_obj needed_minutes =
     (let day_start = dt_on date_obj WORK_START + timedelta_minutes BUFFER_MIN;
          day_end = dt_on date_obj WORK_END
      in if day_end \<le> day_start then Inr []
         else case list_busy_intervals orc date_obj of
                Inl err \<Rightarrow> Inl err
              | Inr busy \<Rightarrow>
                  Inr (sort (remdups
                    (slots_loop now (timedelta_minutes needed_minutes)
                       (free_intervals day_start day_end busy) []))))"

section \<open>Creating the calendar event\<close>

text \<open>
  The draft \<open>context.user_data["booking"]\<close>.  The date text \<open>DD.MM.YYYY\<close> is kept as the
  day it denotes and the time text \<open>HH:MM\<close> as (hour, minute); \<open>valid_time\<close> is what
  \<open>strptime\<close> accepts.  A missing \<open>allow_overlap\<close> key reads as \<open>False\<close>.
\<close>

record booking =
  service :: string
  date :: date
  time :: "int \<times> int"
  allow_overlap :: bool
  name :: string
  phone :: string
  booking_notes :: string
  username :: string
  timestamp :: string

definition valid_time :: "int \<times> int \<Rightarrow> bool" where
  "valid_time hhmm = (0 \<le> fst hhmm \<and> fst hhmm < 24 \<and> 0 \<le> snd hhmm \<and> snd hhmm < 60)"

text \<open>
  \<open>SERVICES\<close> is passed as the list of (name, minutes), the minutes being what
  \<open>_extract_minutes_from_duration_string\<close> yields for the entry's duration text.
\<close>

fun service_duration_minutes :: "(string \<times> int) list \<Rightarrow> string \<Rightarrow> int" where
  "service_duration_minutes [] service_name = 60"
| "service_duration_minutes ((n, minutes) # rest) service_name =
     (if n = service_name then (if minutes = 0 then 60 else minutes)
      else service_duration_minutes rest service_name)"

text \<open>
  The result dictionary of \<open>create_event_on_calendar\<close>: the conflict dictionary with its
  list of events, or the created event's id and link with the \<open>overlapped\<close> key (present
  and true, or absent).  The function returns \<open>None\<close> when the calendar cannot be used.
\<close>

datatype reservation = Conflict "interval list" | Created string string bool

definition overlaps :: "datetime \<Rightarrow> datetime \<Rightarrow> interval \<Rightarrow> bool" where
  "overlaps start_dt end_dt iv = (\<not> (end_dt \<le> fst iv \<or> start_dt \<ge> snd iv))"

fun first_overlap :: "datetime \<Rightarrow> datetime \<Rightarrow> interval list \<Rightarrow> interval option" where
  "first_overlap start_dt end_dt [] = None"
| "first_overlap start_dt end_dt (iv # busy) =
     (if overlaps start_dt end_dt iv then Some iv else first_overlap start_dt end_dt busy)"

definition make_event :: "booking \<Rightarrow> datetime \<Rightarrow> datetime \<Rightarrow> event_body" where
  "make_event b start_dt end_dt =
     \<lparr>ev_service = service b, ev_name = name b, ev_phone = phone b, ev_notes = booking_notes b,
      ev_username = username b, ev_start = start_dt, ev_end = end_dt,
      ev_reminders = [120, 30]\<rparr>"

definition insert_event ::
  "calendar \<Rightarrow> event_body \<Rightarrow> bool \<Rightarrow> event_body list
     \<Rightarrow> (error + reservation option) \<times> event_body list" where
  "insert_event orc event overlapped inserted =
     (case events_insert orc event of
        None \<Rightarrow> (Inr None, inserted)
      | Some (event_id, link) \<Rightarrow>
          (Inr (Some (Created event_id link overlapped)), inserted @ [event]))"

text \<open>
  \<open>inserted\<close> is the external state: the events the calendar has accepted.  Both loops
  over the busy intervals stop at the first interval that passes the same test.
\<close>

definition create_event_on_calendar ::
  "calendar \<Rightarrow> (string \<times> int) list \<Rightarrow> booking \<Rightarrow> event_body list
     \<Rightarrow> (error + reservation option) \<times> event_body list" where
  "create_event_on_calendar orc services b inserted =
     (case calendar_service orc of
        InitRaises \<Rightarrow> (Inl ServiceInitError, inserted)
      | NoService \<Rightarrow> (Inr None, inserted)
      | Service \<Rightarrow>
          (let duration_min = service_duration_minutes services (service b)
           in if \<not> valid_time (time b) then (Inl ValueError, inserted)
              else
                let start_dt = dt_on (date b) (time b);
                    end_dt = start_dt + timedelta_minutes duration_min
                in case list_busy_intervals orc (date_of start_dt) of
                     Inl err \<Rightarrow> (Inl err, inserted)
                   | Inr busy \<Rightarrow>
                       if \<not> allow_overlap b then
                         (case first_overlap start_dt end_dt busy of
                            Some (bs, be) \<Rightarrow> (Inr (Some (Conflict [(bs, be)])), inserted)
                          | None \<Rightarrow>
                              insert_event orc (make_event b start_dt end_dt) False inserted)
                       else
                         insert_event orc (make_event b start_dt end_dt)
                           (first_overlap start_dt end_dt busy \<noteq> None) inserted))"

definition is_conflict :: "error + reservation option \<Rightarrow> bool" where
  "is_conflict r = (case r of Inr (Some (Conflict evs)) \<Rightarrow> True | _ \<Rightarrow> False)"

section \<open>Nearest free days\<close>

datatype button = DayButton date nat | NoFreeDays | BackToTime date

function nearest_loop ::
  "calendar \<Rightarrow> datetime \<Rightarrow> date \<Rightarrow> int \<Rightarrow> date \<Rightarrow> nat \<Rightarrow> button list
     \<Rightarrow> error + (nat \<times> button list)" where
  "nearest_loop orc now anchor_date service_minutes d found rows =
     (if found < 7 \<and> d \<le> anchor_date + timedelta_days 30 then
        (case compute_free_slots_for_date orc now (d + timedelta_days 1) service_minutes of
           Inl err \<Rightarrow> Inl err
         | Inr slots \<Rightarrow>
             if slots \<noteq> [] then
               nearest_loop orc now anchor_date service_minutes (d + timedelta_days 1)
                 (found + 1) (rows @ [DayButton (d + timedelta_days 1) (length slots)])
             else
               nearest_loop orc now anchor_date service_minutes (d + timedelta_days 1)
                 found rows)
      else Inr (found, rows))"
  by pat_completeness auto
termination
  by (relation "measure (\<lambda>(orc, now, anchor_date, service_minutes, d, found, rows).
                  nat (anchor_date + 31 - d))")
     (auto simp: timedelta_days_def)

declare nearest_loop.simps [simp del]

definition nearest_free_days_keyboard ::
  "calendar \<Rightarrow> datetime \<Rightarrow> date \<Rightarrow> int \<Rightarrow> error + button list" where
  "nearest_free_days_keyboard orc now anchor_date service_minutes =
     (case nearest_loop orc now anchor_date service_minutes anchor_date 0 [] of
        Inl err \<Rightarrow> Inl err
      | Inr (found, rows) \<Rightarrow>
          Inr ((if found = 0 then rows @ [NoFreeDays] else rows) @ [BackToTime anchor_date]))"

section \<open>Confirming a booking\<close>

text \<open>
  What \<open>book_confirm\<close> touches: the calendar's accepted events, the rows of
  \<open>bookings.csv\<close>, the rows of the sheet, the notifications to the administrators, the
  message shown to the user and the draft of the conversation.  A CSV row is the draft
  with the two calendar fields; the columns of a sheet row are functions of the same.
  When the conversation holds no draft, \<open>book_confirm\<close> works on an empty dictionary that
  gets the time stamp and the user's tag only: the row written for it is \<open>Blank\<close> with
  these two, every other column being empty.
\<close>

record stored_row =
  row_booking :: booking
  row_eventId :: string
  row_htmlLink :: string

datatype file_row = Booked stored_row | Blank string string

datatype reply =
    ReplyCancelled
  | ReplySlotTaken "datetime list"
  | ReplyThanks bool bool

datatype conversation = ASK_TIME | BOOK_CONFIRM | END

datatype callback = Book_cancel | Book_send | Other_data

record world =
  calendar_events :: "event_body list"
  bookings_csv :: "file_row list"
  gsheet_rows :: "file_row list"
  admin_messages :: "(int \<times> booking \<times> string \<times> bool) list"
  shown :: "reply list"
  draft :: "booking option"

text \<open>
  The surroundings of one call: the calendar's answers, the catalogue, the clock, whether
  the sheet accepts a row (\<open>append_gsheet_row\<close> returns silently when it does not),
  the administrators' chat ids, and the user's tag and the time stamp put into the draft.
\<close>

record env =
  gcal :: calendar
  SERVICES :: "(string \<times> int) list"
  clock :: datetime
  gsheet_ok :: bool
  admin_ids :: "int list"
  user_tag :: string
  stamp :: string

definition append_booking_row_csv :: "file_row \<Rightarrow> world \<Rightarrow> world" where
  "append_booking_row_csv r w = w\<lparr>bookings_csv := bookings_csv w @ [r]\<rparr>"

definition append_gsheet_row :: "env \<Rightarrow> file_row \<Rightarrow> world \<Rightarrow> world" where
  "append_gsheet_row ev r w =
     (if gsheet_ok ev then w\<lparr>gsheet_rows := gsheet_rows w @ [r]\<rparr> else w)"

definition send_admin :: "env \<Rightarrow> booking \<times> string \<times> bool \<Rightarrow> world \<Rightarrow> world" where
  "send_admin ev msg w =
     w\<lparr>admin_messages := admin_messages w @ map (\<lambda>cid. (cid, msg)) (admin_ids ev)\<rparr>"

text \<open>
  With no draft in the conversation the calendar decides what happens: building the
  client raises; or a service handle exists and \<open>create_event_on_calendar\<close> raises
  \<open>KeyError\<close> on the missing service; or there is no handle, \<open>None\<close> comes back, the blank
  row is appended to the file and to the sheet, and \<open>KeyError\<close> is raised when the
  notification is composed.
\<close>

definition book_confirm :: "env \<Rightarrow> callback \<Rightarrow> world \<Rightarrow> (error + conversation) \<times> world" where
  "book_confirm ev data w =
     (case data of
        Book_cancel \<Rightarrow> (Inr END, w\<lparr>shown := shown w @ [ReplyCancelled], draft := None\<rparr>)
      | Other_data \<Rightarrow> (Inr BOOK_CONFIRM, w)
      | Book_send \<Rightarrow>
          (case draft w of
             None \<Rightarrow>
               (case calendar_service (gcal ev) of
                  InitRaises \<Rightarrow> (Inl ServiceInitError, w)
                | Service \<Rightarrow> (Inl KeyError, w)
                | NoService \<Rightarrow>
                    (Inl KeyError,
                     append_gsheet_row ev (Blank (stamp ev) (user_tag ev))
                       (append_booking_row_csv (Blank (stamp ev) (user_tag ev)) w)))
           | Some b0 \<Rightarrow>
               let b = b0\<lparr>timestamp := stamp ev, username := user_tag ev\<rparr>;
                   w1 = w\<lparr>draft := Some b\<rparr>
               in case create_event_on_calendar (gcal ev) (SERVICES ev) b (calendar_events w1) of
                    (Inl err, cal) \<Rightarrow> (Inl err, w1\<lparr>calendar_events := cal\<rparr>)
                  | (Inr (Some (Conflict evs)), cal) \<Rightarrow>
                      (case compute_free_slots_for_date (gcal ev) (clock ev) (date b)
                              (service_duration_minutes (SERVICES ev) (service b)) of
                         Inl err \<Rightarrow> (Inl err, w1\<lparr>calendar_events := cal\<rparr>)
                       | Inr slots \<Rightarrow>
                           (Inr ASK_TIME,
                            w1\<lparr>calendar_events := cal,
                               shown := shown w1 @ [ReplySlotTaken slots]\<rparr>))
                  | (Inr created, cal) \<Rightarrow>
                      let overlapped =
                            (case created of Some (Created i l ov) \<Rightarrow> ov | _ \<Rightarrow> False);
                          r = (case created of
                                 Some (Created i l ov) \<Rightarrow>
                                   \<lparr>row_booking = b, row_eventId = i, row_htmlLink = l\<rparr>
                               | _ \<Rightarrow> \<lparr>row_booking = b, row_eventId = [], row_htmlLink = []\<rparr>);
                          calendar_note = (created = None);
                          w2 = append_booking_row_csv (Booked r) (w1\<lparr>calendar_events := cal\<rparr>);
                          w3 = append_gsheet_row ev (Booked r) w2;
                          w4 = send_admin ev (b, row_htmlLink r, overlapped) w3
                      in (Inr END,
                          w4\<lparr>shown := shown w4 @ [ReplyThanks overlapped calendar_note],
                             draft := None\<rparr>)))"

section \<open>Notions used in the statements\<close>

text \<open>
  The step of the slot loop, the test the loop applies to a candidate \<open>t\<close> of a free
  interval that ends at \<open>fe\<close>, and the set of instants the loop started at \<open>cur\<close> appends.
\<close>

definition step_us :: int where
  "step_us = timedelta_minutes SLOT_STEP_MIN"

definition offerable :: "datetime \<Rightarrow> int \<Rightarrow> datetime \<Rightarrow> datetime \<Rightarrow> bool" where
  "offerable now need fe t =
     (now < t \<and> ((t < fe \<and> t + need \<le> fe) \<or> (t = fe \<and> hhmm_of fe = WORK_END)))"

definition candidates :: "datetime \<Rightarrow> int \<Rightarrow> datetime \<Rightarrow> datetime \<Rightarrow> datetime set" where
  "candidates now need fe cur =
     {t. cur \<le> t \<and> step_us dvd (t - cur) \<and> t \<le> fe \<and> offerable now need fe t}"

text \<open>
  The working window of a day as \<open>compute_free_slots_for_date\<close> computes it, and the step
  grid: wall-clock instants whose minute is a multiple of the step and whose seconds are
  zero.
\<close>

definition day_start :: "date \<Rightarrow> datetime" where
  "day_start d = dt_on d WORK_START + timedelta_minutes BUFFER_MIN"

definition day_end :: "date \<Rightarrow> datetime" where
  "day_end d = dt_on d WORK_END"

definition on_grid :: "datetime \<Rightarrow> bool" where
  "on_grid t = (t mod timedelta_minutes SLOT_STEP_MIN = 0)"

text \<open>
  The calendar cannot be used: \<open>get_calendar_service()\<close> gives no handle, or every listing
  and every insertion call raises.
\<close>

definition unreachable :: "calendar \<Rightarrow> bool" where
  "unreachable orc =
     (calendar_service orc = NoService \<or>
      (calendar_service orc = Service \<and> (\<forall>d. events_list orc d = None) \<and>
       (\<forall>e. events_insert orc e = None)))"

text \<open>
  A free sub-interval of the window \<open>[ds, de]\<close>, said without the loop: a non-empty stretch of
  the window that no busy interval reaches into and that cannot be extended, since it
  starts at the window's start or at the end of a busy interval and ends at the window's
  end or at the start of a busy interval.
\<close>

definition free_gap :: "datetime \<Rightarrow> datetime \<Rightarrow> interval list \<Rightarrow> interval \<Rightarrow> bool" where
  "free_gap ds de busy g =
     (ds \<le> fst g \<and> fst g < snd g \<and> snd g \<le> de \<and>
      (\<forall>b\<in>set busy. snd b \<le> fst g \<or> snd g \<le> fst b) \<and>
      (fst g = ds \<or> (\<exists>b\<in>set busy. snd b = fst g)) \<and>
      (snd g = de \<or> (\<exists>b\<in>set busy. fst b = snd g)))"

section \<open>Concrete inputs\<close>

text \<open>
  Inputs at which the theorems below are instantiated and the code is evaluated:
  \<open>at d h m s\<close> is the instant \<open>h:m:s\<close> of day \<open>d\<close>.
\<close>

definition at :: "date \<Rightarrow> int \<Rightarrow> int \<Rightarrow> int \<Rightarrow> datetime" where
  "at d h m s = dt_on d (h, m) + s * 1000000"

definition one_event :: "datetime \<Rightarrow> datetime \<Rightarrow> raw_event" where
  "one_event st en = \<lparr>cancelled = False, span = Some (st, en)\<rparr>"

definition demo_calendar :: calendar where
  "demo_calendar =
     \<lparr>calendar_service = Service,
      events_list = (\<lambda>d. if d = 0 then Some [one_event (at 0 10 0 0) (at 0 11 0 0)] else Some []),
      events_insert = (\<lambda>e. Some (''ev1'', ''link1''))\<rparr>"

definition failing_calendar :: calendar where
  "failing_calendar =
     \<lparr>calendar_service = Service, events_list = (\<lambda>d. None), events_insert = (\<lambda>e. None)\<rparr>"

definition demo_services :: "(string \<times> int) list" where
  "demo_services = [(''makeup'', 68), (''brows'', 30)]"

definition demo_booking :: booking where
  "demo_booking =
     \<lparr>service = ''brows'', date = 0, time = (10, 30), allow_overlap = False,
      name = ''Anna'', phone = ''+70000000000'', booking_notes = '''', username = ''anna'',
      timestamp = ''2025-10-05T09:00:00''\<rparr>"

definition manual_booking :: booking where
  "manual_booking = demo_booking\<lparr>allow_overlap := True\<rparr>"

definition no_calendar :: calendar where
  "no_calendar =
     \<lparr>calendar_service = NoService, events_list = (\<lambda>d. None), events_insert = (\<lambda>e. None)\<rparr>"

definition evening_calendar :: calendar where
  "evening_calendar =
     \<lparr>calendar_service = Service,
      events_list = (\<lambda>d. if d = 0 then Some [one_event (at 0 18 30 0) (at 0 19 30 0)] else Some []),
      events_insert = (\<lambda>e. Some (''ev2'', ''link2''))\<rparr>"

definition slot_booking :: booking where
  "slot_booking = demo_booking\<lparr>time := (11, 15)\<rparr>"

definition closing_booking :: booking where
  "closing_booking = demo_booking\<lparr>time := (18, 0)\<rparr>"

definition seconds_calendar :: calendar where
  "seconds_calendar =
     \<lparr>calendar_service = Service,
      events_list = (\<lambda>d. if d = 0 then Some [one_event (at 0 9 0 0) (at 0 9 45 30)] else Some []),
      events_insert = (\<lambda>e. Some (''ev3'', ''link3''))\<rparr>"

definition vacation_calendar :: calendar where
  "vacation_calendar =
     \<lparr>calendar_service = Service,
      events_list = (\<lambda>d. if 1 \<le> d \<and> d \<le> 30
                          then Some [one_event (at 1 0 0 0) (at 31 0 0 0)] else Some []),
      events_insert = (\<lambda>e. Some (''ev4'', ''link4''))\<rparr>"

definition online_env :: env where
  "online_env =
     \<lparr>gcal = failing_calendar, SERVICES = demo_services, clock = 0, gsheet_ok = True,
      admin_ids = [1], user_tag = ''anna'', stamp = ''2025-10-05T09:00:00''\<rparr>"

definition offline_env :: env where
  "offline_env =
     \<lparr>gcal = no_calendar, SERVICES = demo_services, clock = 0, gsheet_ok = False,
      admin_ids = [1], user_tag = ''anna'', stamp = ''2025-10-05T09:00:00''\<rparr>"

definition demo_world :: world where
  "demo_world =
     \<lparr>calendar_events = [], bookings_csv = [], gsheet_rows = [], admin_messages = [],
      shown = [], draft = Some demo_booking\<rparr>"

section \<open>Properties of the merge step\<close>

lemma foldl_merge_step:
  "foldl merge_step (acc @ [cur]) xs = acc @ coalesce cur xs"
proof (induction xs arbitrary: acc cur)
  case Nil
  show ?case by simp
next
  case (Cons x xs)
  obtain s e where x: "x = (s, e)" by (cases x)
  show ?case
  proof (cases "s > snd cur")
    case True
    have "foldl merge_step (acc @ [cur]) (x # xs) = foldl merge_step ((acc @ [cur]) @ [x]) xs"
      using True x by simp
    also have "\<dots> = (acc @ [cur]) @ coalesce x xs"
      by (rule Cons.IH)
    finally show ?thesis using True x by simp
  next
    case False
    have "foldl merge_step (acc @ [cur]) (x # xs) =
          foldl merge_step (acc @ [(fst cur, max (snd cur) e)]) xs"
      using False x by simp
    also have "\<dots> = acc @ coalesce (fst cur, max (snd cur) e) xs"
      by (rule Cons.IH)
    finally show ?thesis using False x by simp
  qed
qed

lemma merge_intervals_coalesce:
  "merge_intervals result =
     (case sort_key fst result of [] \<Rightarrow> [] | x # xs \<Rightarrow> coalesce x xs)"
proof (cases "sort_key fst result")
  case Nil
  then show ?thesis by (simp add: merge_intervals_def)
next
  case (Cons x xs)
  obtain s e where x: "x = (s, e)" by (cases x)
  have "foldl merge_step [] (x # xs) = foldl merge_step ([] @ [x]) xs"
    using x by simp
  also have "\<dots> = [] @ coalesce x xs"
    by (rule foldl_merge_step)
  finally show ?thesis using Cons by (simp add: merge_intervals_def)
qed

lemma coalesce_hd:
  "\<exists>e'. e' \<ge> snd cur \<and> hd (coalesce cur xs) = (fst cur, e') \<and> coalesce cur xs \<noteq> []"
  by (induction cur xs rule: coalesce.induct) (auto simp: max_def)

lemma coalesce_successively:
  "successively (\<lambda>a b. snd a < fst b) (coalesce cur xs)"
proof (induction cur xs rule: coalesce.induct)
  case (1 cur)
  show ?case by simp
next
  case (2 cur x xs)
  show ?case
  proof (cases "fst x > snd cur")
    case True
    obtain e' where "hd (coalesce x xs) = (fst x, e')" "coalesce x xs \<noteq> []"
      using coalesce_hd by blast
    then show ?thesis using True 2 by (simp add: successively_Cons)
  next
    case False
    then show ?thesis using 2 by simp
  qed
qed

lemma coalesce_fst_ge:
  "y \<in> set (coalesce cur xs) \<Longrightarrow> \<forall>x\<in>set xs. fst cur \<le> fst x \<Longrightarrow> sorted (map fst xs)
     \<Longrightarrow> fst cur \<le> fst y"
  by (induction cur xs arbitrary: y rule: coalesce.induct) (fastforce split: if_splits)+

lemma coalesce_sorted:
  "sorted (map fst (cur # xs)) \<Longrightarrow> sorted (map fst (coalesce cur xs))"
proof (induction cur xs rule: coalesce.induct)
  case (1 cur)
  show ?case by simp
next
  case (2 cur x xs)
  show ?case
  proof (cases "fst x > snd cur")
    case True
    have "\<forall>y\<in>set (coalesce x xs). fst x \<le> fst y"
      using coalesce_fst_ge[of _ x xs] 2(3) by auto
    then show ?thesis using True 2 by auto
  next
    case False
    then show ?thesis using 2 by auto
  qed
qed

lemma coalesce_covered:
  "sorted (map fst (cur # xs)) \<Longrightarrow> covered (coalesce cur xs) = covered (cur # xs)"
proof (induction cur xs rule: coalesce.induct)
  case (1 cur)
  show ?case by simp
next
  case (2 cur x xs)
  show ?case
  proof (cases "fst x > snd cur")
    case True
    then show ?thesis using 2 by (auto simp: covered_def)
  next
    case False
    have "covered (coalesce (fst cur, max (snd cur) (snd x)) xs) =
          covered ((fst cur, max (snd cur) (snd x)) # xs)"
      using 2(2)[OF False] 2(3) by auto
    moreover have "{fst cur ..< max (snd cur) (snd x)} = {fst cur ..< snd cur} \<union> {fst x ..< snd x}"
      using False 2(3) by (auto simp: max_def)
    ultimately show ?thesis using False by (auto simp: covered_def)
  qed
qed

lemma coalesce_proper:
  "\<forall>x\<in>set (cur # xs). fst x < snd x \<Longrightarrow> \<forall>x\<in>set (coalesce cur xs). fst x < snd x"
  by (induction cur xs rule: coalesce.induct) (auto simp: max_def)

lemma coalesce_fixed:
  "successively (\<lambda>a b. snd a < fst b) (cur # xs) \<Longrightarrow> coalesce cur xs = cur # xs"
  by (induction cur xs rule: coalesce.induct) auto

lemma merge_intervals_successively:
  "successively (\<lambda>a b. snd a < fst b) (merge_intervals xs)"
  by (simp add: merge_intervals_coalesce coalesce_successively split: list.split)

lemma merge_intervals_sorted:
  "sorted (map fst (merge_intervals xs))"
proof (cases "sort_key fst xs")
  case Nil
  then show ?thesis by (simp add: merge_intervals_coalesce)
next
  case (Cons y ys)
  have "sorted (map fst (sort_key fst xs))" by (rule sorted_sort_key)
  then have "sorted (map fst (coalesce y ys))"
    unfolding Cons by (rule coalesce_sorted)
  then show ?thesis by (simp add: merge_intervals_coalesce Cons)
qed

lemma covered_sort_key: "covered (sort_key fst xs) = covered xs"
  by (simp add: covered_def)

lemma merge_intervals_covered:
  "covered (merge_intervals xs) = covered xs"
proof (cases "sort_key fst xs")
  case Nil
  then have "covered (merge_intervals xs) = covered (sort_key fst xs)"
    by (simp add: merge_intervals_coalesce)
  then show ?thesis by (simp add: covered_sort_key)
next
  case (Cons y ys)
  have "sorted (map fst (sort_key fst xs))" by (rule sorted_sort_key)
  then have "covered (coalesce y ys) = covered (y # ys)"
    unfolding Cons by (rule coalesce_covered)
  then have "covered (merge_intervals xs) = covered (sort_key fst xs)"
    by (simp add: merge_intervals_coalesce Cons)
  then show ?thesis by (simp add: covered_sort_key)
qed

lemma merge_intervals_proper:
  assumes "\<forall>iv\<in>set xs. fst iv < snd iv"
  shows "\<forall>iv\<in>set (merge_intervals xs). fst iv < snd iv"
proof (cases "sort_key fst xs")
  case Nil
  then show ?thesis by (simp add: merge_intervals_coalesce)
next
  case (Cons y ys)
  have "set (y # ys) = set xs" using Cons set_sort[of fst xs] by simp
  then have "\<forall>iv\<in>set (y # ys). fst iv < snd iv" using assms by simp
  then have "\<forall>iv\<in>set (coalesce y ys). fst iv < snd iv" by (rule coalesce_proper)
  then show ?thesis by (simp add: merge_intervals_coalesce Cons)
qed

lemma separated_if_proper:
  assumes "successively (\<lambda>a b. snd a < fst b) (ys :: interval list)"
    and "\<forall>iv\<in>set ys. fst iv < snd iv"
  shows "sorted_wrt (\<lambda>a b. snd a < fst b) ys"
proof -
  have "successively (\<lambda>a b. snd a < fst b) ys \<longleftrightarrow> sorted_wrt (\<lambda>a b. snd a < fst b) ys"
  proof (rule successively_iff_sorted_wrt_strong)
    fix x y z :: interval
    assume "y \<in> set ys" "snd x < fst y" "snd y < fst z"
    then show "snd x < fst z" using assms(2) by fastforce
  qed
  then show ?thesis using assms(1) by simp
qed

text \<open>
  C2.  For every list of intervals, each with start before end, in any order and possibly
  empty, the merge step yields a list that is sorted by start, in which every interval
  ends strictly before every later one starts (so no two overlap or touch), whose
  intervals again have start before end, and which covers exactly the points the input
  covers.
\<close>

theorem merge_sorted_separated_cover:
  assumes "\<forall>iv\<in>set xs. fst iv < snd iv"
  shows "sorted (map fst (merge_intervals xs)) \<and>
         sorted_wrt (\<lambda>a b. snd a < fst b) (merge_intervals xs) \<and>
         (\<forall>iv\<in>set (merge_intervals xs). fst iv < snd iv) \<and>
         covered (merge_intervals xs) = covered xs"
proof -
  have p: "\<forall>iv\<in>set (merge_intervals xs). fst iv < snd iv"
    using assms by (rule merge_intervals_proper)
  have "sorted_wrt (\<lambda>a b. snd a < fst b) (merge_intervals xs)"
    using merge_intervals_successively p by (rule separated_if_proper)
  then show ?thesis
    using p merge_intervals_sorted merge_intervals_covered by simp
qed

theorem merge_sorted_separated_cover_witness:
  "merge_intervals [(5, 7), (1, 3), (3, 4)] = [(1, 4), (5, 7)] \<and>
   sorted (map fst (merge_intervals [(5, 7), (1, 3), (3, 4)])) \<and>
   sorted_wrt (\<lambda>a b. snd a < fst b) (merge_intervals [(5, 7), (1, 3), (3, 4)]) \<and>
   covered (merge_intervals [(5, 7), (1, 3), (3, 4)]) = covered [(5, 7), (1, 3), (3, 4)]"
proof -
  have h: "\<forall>iv\<in>set [(5, 7), (1, 3), (3, 4 :: int)]. fst iv < snd iv" by simp
  have v: "merge_intervals [(5, 7), (1, 3), (3, 4)] = [(1, 4), (5, 7)]"
    by (simp add: merge_intervals_def)
  show ?thesis
    using h v merge_sorted_separated_cover [OF h] by simp
qed

lemma merge_intervals_idem:
  "merge_intervals (merge_intervals xs) = merge_intervals xs"
proof (cases "merge_intervals xs")
  case Nil
  then show ?thesis by (simp add: merge_intervals_def)
next
  case (Cons y ys)
  have "sorted (map fst (y # ys))"
    using merge_intervals_sorted[of xs] Cons by simp
  then have s: "sort_key fst (y # ys) = y # ys"
    by (rule sort_key_id_if_sorted)
  have "successively (\<lambda>a b. snd a < fst b) (y # ys)"
    using merge_intervals_successively[of xs] Cons by simp
  then have "coalesce y ys = y # ys"
    by (rule coalesce_fixed)
  then have "merge_intervals (y # ys) = y # ys"
    using s by (simp add: merge_intervals_coalesce)
  then show ?thesis using Cons by simp
qed

lemma snd_merge_in_place: "snd (merge_in_place xs) = merge_intervals xs"
  by (simp add: merge_in_place_def merge_intervals_def Let_def)

lemma fst_merge_in_place: "fst (merge_in_place xs) = sort_key fst xs"
  by (simp add: merge_in_place_def Let_def)

lemma sort_key_fixed_iff: "sort_key fst xs = xs \<longleftrightarrow> sorted (map fst xs)"
proof
  assume "sort_key fst xs = xs"
  then have "map fst xs = map fst (sort_key fst xs)" by simp
  then show "sorted (map fst xs)" by (simp only: sorted_sort_key)
next
  assume "sorted (map fst xs)"
  then show "sort_key fst xs = xs" by (rule sort_key_id_if_sorted)
qed

text \<open>
  C8.  The merge step is idempotent: merging an already merged list returns it unchanged,
  for every input list.  It returns a new list, and what it does to the list it is given
  is to sort it in place by start: the list is left as it was exactly when it was already
  sorted by start, as every merged list is.  An unsorted list is reordered, as the
  evaluation after the theorem shows.
\<close>

theorem merge_idempotent_sorts_in_place:
  "merge_intervals (merge_intervals xs) = merge_intervals xs \<and>
   snd (merge_in_place xs) = merge_intervals xs \<and>
   fst (merge_in_place xs) = sort_key fst xs \<and>
   (fst (merge_in_place xs) = xs \<longleftrightarrow> sorted (map fst xs)) \<and>
   fst (merge_in_place (merge_intervals xs)) = merge_intervals xs"
proof -
  have "sort_key fst (merge_intervals xs) = merge_intervals xs"
    using merge_intervals_sorted by (rule sort_key_id_if_sorted)
  then show ?thesis
    by (simp add: merge_intervals_idem snd_merge_in_place fst_merge_in_place sort_key_fixed_iff)
qed

theorem merge_reorders_input_counterexample:
  "fst (merge_in_place [(5, 7), (1, 3)]) = [(1, 3), (5, 7)] \<and>
   fst (merge_in_place [(5, 7), (1, 3)]) \<noteq> [(5, 7), (1, 3)] \<and>
   snd (merge_in_place [(5, 7), (1, 3)]) = [(1, 3), (5, 7)]"
  by (simp add: merge_in_place_def Let_def)

section \<open>The reservation protocol\<close>

lemma DAY_US_pos: "0 < DAY_US"
  by (simp add: DAY_US_def MINUTE_US_def)

lemma div_day_unique:
  assumes "0 \<le> r" "r < DAY_US"
  shows "(d * DAY_US + r) div DAY_US = d"
proof -
  have "(r + d * DAY_US) div DAY_US = d + r div DAY_US"
    using DAY_US_pos by simp
  moreover have "r div DAY_US = 0" using assms by simp
  ultimately show ?thesis by (simp add: add.commute)
qed

lemma date_of_dt_on:
  assumes "valid_time hhmm"
  shows "date_of (dt_on d hhmm) = d"
proof -
  let ?m = "fst hhmm * 60 + snd hhmm"
  have b: "0 \<le> ?m" "?m < 1440" using assms by (auto simp: valid_time_def)
  have "0 \<le> ?m * MINUTE_US" using b by (simp add: MINUTE_US_def)
  moreover have "?m * MINUTE_US < DAY_US" using b by (simp add: DAY_US_def MINUTE_US_def)
  ultimately have "(d * DAY_US + ?m * MINUTE_US) div DAY_US = d"
    by (rule div_day_unique)
  then show ?thesis by (simp add: date_of_def dt_on_def)
qed

lemma overlaps_iff_common_point:
  assumes "start_dt < end_dt" "fst iv < snd iv"
  shows "overlaps start_dt end_dt iv \<longleftrightarrow> {start_dt ..< end_dt} \<inter> {fst iv ..< snd iv} \<noteq> {}"
proof
  assume "overlaps start_dt end_dt iv"
  then have "max start_dt (fst iv) \<in> {start_dt ..< end_dt} \<inter> {fst iv ..< snd iv}"
    using assms by (auto simp: overlaps_def)
  then show "{start_dt ..< end_dt} \<inter> {fst iv ..< snd iv} \<noteq> {}" by blast
next
  assume "{start_dt ..< end_dt} \<inter> {fst iv ..< snd iv} \<noteq> {}"
  then obtain t where "t \<in> {start_dt ..< end_dt} \<inter> {fst iv ..< snd iv}" by blast
  then have "start_dt \<le> t \<and> t < end_dt \<and> fst iv \<le> t \<and> t < snd iv" by simp
  then show "overlaps start_dt end_dt iv" unfolding overlaps_def by linarith
qed

lemma first_overlap_None:
  "first_overlap s e busy = None \<longleftrightarrow> (\<forall>iv\<in>set busy. \<not> overlaps s e iv)"
  by (induction busy) auto

lemma first_overlap_SomeD:
  "first_overlap s e busy = Some iv \<Longrightarrow>
     \<exists>pre post. busy = pre @ iv # post \<and> (\<forall>x\<in>set pre. \<not> overlaps s e x) \<and> overlaps s e iv"
proof (induction busy)
  case Nil
  then show ?case by simp
next
  case (Cons x busy)
  show ?case
  proof (cases "overlaps s e x")
    case True
    then have "x = iv" using Cons.prems by simp
    then have "x # busy = [] @ iv # busy \<and> (\<forall>y\<in>set []. \<not> overlaps s e y) \<and> overlaps s e iv"
      using True by simp
    then show ?thesis by blast
  next
    case False
    then have "first_overlap s e busy = Some iv" using Cons.prems by simp
    then obtain pre post where p: "busy = pre @ iv # post" "\<forall>y\<in>set pre. \<not> overlaps s e y"
        "overlaps s e iv"
      using Cons.IH by blast
    have "x # busy = (x # pre) @ iv # post \<and> (\<forall>y\<in>set (x # pre). \<not> overlaps s e y) \<and>
          overlaps s e iv"
      using p False by simp
    then show ?thesis by blast
  qed
qed

lemma is_conflict_simps:
  "is_conflict (Inl err) = False"
  "is_conflict (Inr None) = False"
  "is_conflict (Inr (Some (Created i l ov))) = False"
  "is_conflict (Inr (Some (Conflict evs))) = True"
  by (simp_all add: is_conflict_def)

lemma insert_event_not_conflict:
  "\<not> is_conflict (fst (insert_event orc event ov inserted))"
  by (cases "events_insert orc event") (auto simp: insert_event_def is_conflict_simps)

lemma create_event_Service:
  assumes "calendar_service orc = Service" "valid_time (time b)"
    and "list_busy_intervals orc (date b) = Inr busy"
  shows "create_event_on_calendar orc services b inserted =
     (let start_dt = dt_on (date b) (time b);
          end_dt = start_dt + timedelta_minutes (service_duration_minutes services (service b))
      in if \<not> allow_overlap b then
           (case first_overlap start_dt end_dt busy of
              Some iv \<Rightarrow> (Inr (Some (Conflict [iv])), inserted)
            | None \<Rightarrow> insert_event orc (make_event b start_dt end_dt) False inserted)
         else insert_event orc (make_event b start_dt end_dt)
                (first_overlap start_dt end_dt busy \<noteq> None) inserted)"
proof -
  have d: "date_of (dt_on (date b) (time b)) = date b"
    using assms(2) by (rule date_of_dt_on)
  show ?thesis
    unfolding create_event_on_calendar_def Let_def
    using assms d by (simp split: option.split)
qed

lemma create_event_NoService:
  "calendar_service orc = NoService \<Longrightarrow>
     create_event_on_calendar orc services b inserted = (Inr None, inserted)"
  by (simp add: create_event_on_calendar_def)

lemma create_event_InitRaises:
  "calendar_service orc = InitRaises \<Longrightarrow>
     create_event_on_calendar orc services b inserted = (Inl ServiceInitError, inserted)"
  by (simp add: create_event_on_calendar_def)

lemma create_event_invalid_time:
  "calendar_service orc = Service \<Longrightarrow> \<not> valid_time (time b) \<Longrightarrow>
     create_event_on_calendar orc services b inserted = (Inl ValueError, inserted)"
  by (simp add: create_event_on_calendar_def)

lemma list_busy_Service_Inr:
  "calendar_service orc = Service \<Longrightarrow> \<exists>busy. list_busy_intervals orc d = Inr busy"
  by (simp add: list_busy_intervals_def split: option.split)

lemma busy_needs_service:
  "list_busy_intervals orc d = Inr busy \<Longrightarrow> busy \<noteq> [] \<Longrightarrow> calendar_service orc = Service"
  by (cases "calendar_service orc") (simp_all add: list_busy_intervals_def)

lemmas time_consts = at_def dt_on_def date_of_def DAY_US_def MINUTE_US_def timedelta_minutes_def
  BUFFER_MIN_def

lemma demo_busy:
  "list_busy_intervals demo_calendar 0 = Inr [(at 0 9 45 0, at 0 11 15 0)]"
  by (simp add: list_busy_intervals_def demo_calendar_def one_event_def merge_intervals_def
        time_consts)

text \<open>
  C3.  For a draft with \<open>allow_overlap\<close> false and a valid time, if the busy list recomputed
  for the day of the start contains an interval that the draft's interval
  \<open>[start, start + duration)\<close> overlaps (the source's test: it ends after the busy start and
  starts before the busy end, which for non-empty intervals is sharing a point), then
  \<open>create_event_on_calendar\<close> returns the conflict result carrying the first such interval of
  the list, and the calendar's accepted events are unchanged.
\<close>

theorem conflict_blocks_structured_booking:
  assumes "\<not> allow_overlap b" and "valid_time (time b)"
    and "start_dt = dt_on (date b) (time b)"
    and "end_dt = start_dt + timedelta_minutes (service_duration_minutes services (service b))"
    and "list_busy_intervals orc (date_of start_dt) = Inr busy"
    and "\<exists>iv\<in>set busy. overlaps start_dt end_dt iv"
  shows "\<exists>pre iv post. busy = pre @ iv # post \<and>
           (\<forall>x\<in>set pre. \<not> overlaps start_dt end_dt x) \<and> overlaps start_dt end_dt iv \<and>
           create_event_on_calendar orc services b inserted =
             (Inr (Some (Conflict [iv])), inserted)"
proof -
  have "first_overlap start_dt end_dt busy \<noteq> None"
    using assms(6) by (simp add: first_overlap_None)
  then obtain iv where iv: "first_overlap start_dt end_dt busy = Some iv" by blast
  then obtain pre post where p: "busy = pre @ iv # post"
      "\<forall>x\<in>set pre. \<not> overlaps start_dt end_dt x" "overlaps start_dt end_dt iv"
    using first_overlap_SomeD by blast
  have d: "date_of start_dt = date b"
    unfolding assms(3) using assms(2) by (rule date_of_dt_on)
  have "busy \<noteq> []" using p(1) by simp
  then have s: "calendar_service orc = Service"
    using assms(5) busy_needs_service by blast
  have l: "list_busy_intervals orc (date b) = Inr busy"
    using assms(5) d by simp
  have "create_event_on_calendar orc services b inserted =
          (Inr (Some (Conflict [iv])), inserted)"
    using create_event_Service[OF s assms(2) l, of services inserted] assms(1) iv
    by (simp add: Let_def assms(3,4))
  then show ?thesis using p by blast
qed

theorem conflict_blocks_structured_booking_witness:
  "\<not> allow_overlap demo_booking \<and> valid_time (time demo_booking) \<and>
   list_busy_intervals demo_calendar (date_of (at 0 10 30 0)) = Inr [(at 0 9 45 0, at 0 11 15 0)] \<and>
   (\<exists>iv\<in>set [(at 0 9 45 0, at 0 11 15 0)]. overlaps (at 0 10 30 0) (at 0 11 0 0) iv) \<and>
   create_event_on_calendar demo_calendar demo_services demo_booking [] =
     (Inr (Some (Conflict [(at 0 9 45 0, at 0 11 15 0)])), [])"
proof -
  have h1: "\<not> allow_overlap demo_booking" by (simp add: demo_booking_def)
  have h2: "valid_time (time demo_booking)" by (simp add: demo_booking_def valid_time_def)
  have h3: "at 0 10 30 0 = dt_on (date demo_booking) (time demo_booking)"
    by (simp add: demo_booking_def at_def)
  have h4: "at 0 11 0 0 = at 0 10 30 0 +
      timedelta_minutes (service_duration_minutes demo_services (service demo_booking))"
    by (simp add: demo_booking_def demo_services_def time_consts)
  have d: "date_of (at 0 10 30 0) = 0" by (simp add: time_consts)
  have h5: "list_busy_intervals demo_calendar (date_of (at 0 10 30 0)) =
      Inr [(at 0 9 45 0, at 0 11 15 0)]"
    unfolding d by (rule demo_busy)
  have h6: "\<exists>iv\<in>set [(at 0 9 45 0, at 0 11 15 0)]. overlaps (at 0 10 30 0) (at 0 11 0 0) iv"
    by (simp add: overlaps_def time_consts)
  obtain pre iv post where c: "[(at 0 9 45 0, at 0 11 15 0)] = pre @ iv # post"
      "create_event_on_calendar demo_calendar demo_services demo_booking [] =
         (Inr (Some (Conflict [iv])), [])"
    using conflict_blocks_structured_booking [OF h1 h2 h3 h4 h5 h6, of "[]"] by blast
  have "iv = (at 0 9 45 0, at 0 11 15 0)"
    using c(1) by (cases pre) simp_all
  then show ?thesis using h1 h2 h5 h6 c(2) by simp
qed

text \<open>
  C4.  For a draft with \<open>allow_overlap\<close> true, \<open>create_event_on_calendar\<close> never returns a
  conflict; when the calendar accepts the event the result is the created event, and its
  \<open>overlapped\<close> flag is set exactly when some busy interval of the day overlaps the draft's
  interval.
\<close>

theorem overlap_allowed_never_conflict:
  assumes "allow_overlap b"
    and "start_dt = dt_on (date b) (time b)"
    and "end_dt = start_dt + timedelta_minutes (service_duration_minutes services (service b))"
  shows "\<not> is_conflict (fst (create_event_on_calendar orc services b inserted)) \<and>
         (\<forall>busy i l. calendar_service orc = Service \<longrightarrow> valid_time (time b) \<longrightarrow>
            list_busy_intervals orc (date_of start_dt) = Inr busy \<longrightarrow>
            events_insert orc (make_event b start_dt end_dt) = Some (i, l) \<longrightarrow>
            create_event_on_calendar orc services b inserted =
              (Inr (Some (Created i l (\<exists>iv\<in>set busy. overlaps start_dt end_dt iv))),
               inserted @ [make_event b start_dt end_dt]))"
proof -
  have nc: "\<not> is_conflict (fst (create_event_on_calendar orc services b inserted))"
  proof (cases "calendar_service orc")
    case NoService
    then show ?thesis by (simp add: create_event_NoService is_conflict_simps)
  next
    case InitRaises
    then show ?thesis by (simp add: create_event_InitRaises is_conflict_simps)
  next
    case Service
    show ?thesis
    proof (cases "valid_time (time b)")
      case False
      then show ?thesis using Service by (simp add: create_event_invalid_time is_conflict_simps)
    next
      case True
      obtain busy where "list_busy_intervals orc (date b) = Inr busy"
        using list_busy_Service_Inr[OF Service] by blast
      then show ?thesis
        using create_event_Service[OF Service True, of busy services inserted] assms(1)
        by (simp add: Let_def insert_event_not_conflict)
    qed
  qed
  have cr: "create_event_on_calendar orc services b inserted =
              (Inr (Some (Created i l (\<exists>iv\<in>set busy. overlaps start_dt end_dt iv))),
               inserted @ [make_event b start_dt end_dt])"
    if h: "calendar_service orc = Service" "valid_time (time b)"
       "list_busy_intervals orc (date_of start_dt) = Inr busy"
       "events_insert orc (make_event b start_dt end_dt) = Some (i, l)" for busy i l
  proof -
    have d: "date_of start_dt = date b"
      unfolding assms(2) using h(2) by (rule date_of_dt_on)
    have l: "list_busy_intervals orc (date b) = Inr busy" using h(3) d by simp
    have ov: "(first_overlap start_dt end_dt busy \<noteq> None) =
              (\<exists>iv\<in>set busy. overlaps start_dt end_dt iv)"
      by (simp add: first_overlap_None)
    show ?thesis
      using create_event_Service[OF h(1) h(2) l, of services inserted] assms(1) h(4) ov
      by (simp add: Let_def insert_event_def assms(2,3)[symmetric])
  qed
  show ?thesis using nc cr by blast
qed

theorem overlap_allowed_never_conflict_witness:
  "allow_overlap manual_booking \<and>
   \<not> is_conflict (fst (create_event_on_calendar demo_calendar demo_services manual_booking [])) \<and>
   create_event_on_calendar demo_calendar demo_services manual_booking [] =
     (Inr (Some (Created ''ev1'' ''link1'' True)),
      [make_event manual_booking (at 0 10 30 0) (at 0 11 0 0)])"
proof -
  have h1: "allow_overlap manual_booking" by (simp add: manual_booking_def)
  have h2: "at 0 10 30 0 = dt_on (date manual_booking) (time manual_booking)"
    by (simp add: manual_booking_def demo_booking_def at_def)
  have h3: "at 0 11 0 0 = at 0 10 30 0 +
      timedelta_minutes (service_duration_minutes demo_services (service manual_booking))"
    by (simp add: manual_booking_def demo_booking_def demo_services_def time_consts)
  have s: "calendar_service demo_calendar = Service" by (simp add: demo_calendar_def)
  have v: "valid_time (time manual_booking)"
    by (simp add: manual_booking_def demo_booking_def valid_time_def)
  have d: "date_of (at 0 10 30 0) = 0" by (simp add: time_consts)
  have l: "list_busy_intervals demo_calendar (date_of (at 0 10 30 0)) =
      Inr [(at 0 9 45 0, at 0 11 15 0)]"
    unfolding d by (rule demo_busy)
  have i: "events_insert demo_calendar (make_event manual_booking (at 0 10 30 0) (at 0 11 0 0)) =
      Some (''ev1'', ''link1'')"
    by (simp add: demo_calendar_def)
  have o: "\<exists>iv\<in>set [(at 0 9 45 0, at 0 11 15 0)]. overlaps (at 0 10 30 0) (at 0 11 0 0) iv"
    by (simp add: overlaps_def time_consts)
  note t = overlap_allowed_never_conflict [OF h1 h2 h3, of demo_calendar "[]"]
  have "create_event_on_calendar demo_calendar demo_services manual_booking [] =
     (Inr (Some (Created ''ev1'' ''link1''
        (\<exists>iv\<in>set [(at 0 9 45 0, at 0 11 15 0)]. overlaps (at 0 10 30 0) (at 0 11 0 0) iv))),
      [] @ [make_event manual_booking (at 0 10 30 0) (at 0 11 0 0)])"
    using t s v l i by blast
  then show ?thesis using t h1 o by simp
qed

text \<open>
  C10.  If no calendar service is configured, or every listing call fails, then
  \<open>create_event_on_calendar\<close> does not return a conflict, for every draft, also with
  \<open>allow_overlap\<close> false.
\<close>

theorem unavailable_calendar_never_conflict:
  assumes "calendar_service orc = NoService \<or> (\<forall>d. events_list orc d = None)"
  shows "\<not> is_conflict (fst (create_event_on_calendar orc services b inserted))"
proof (cases "calendar_service orc")
  case NoService
  then show ?thesis by (simp add: create_event_NoService is_conflict_simps)
next
  case InitRaises
  then show ?thesis by (simp add: create_event_InitRaises is_conflict_simps)
next
  case Service
  then have e: "\<forall>d. events_list orc d = None" using assms by simp
  show ?thesis
  proof (cases "valid_time (time b)")
    case False
    then show ?thesis using Service by (simp add: create_event_invalid_time is_conflict_simps)
  next
    case True
    have "list_busy_intervals orc (date b) = Inr []"
      using Service e by (simp add: list_busy_intervals_def)
    then show ?thesis
      using create_event_Service[OF Service True, of "[]" services inserted]
      by (simp add: Let_def insert_event_not_conflict)
  qed
qed

theorem unavailable_calendar_never_conflict_witness:
  "(calendar_service failing_calendar = NoService \<or> (\<forall>d. events_list failing_calendar d = None)) \<and>
   \<not> is_conflict (fst (create_event_on_calendar failing_calendar demo_services demo_booking []))"
proof -
  have h: "calendar_service failing_calendar = NoService \<or>
           (\<forall>d. events_list failing_calendar d = None)"
    by (simp add: failing_calendar_def)
  show ?thesis
    using h unavailable_calendar_never_conflict [OF h, of demo_services demo_booking "[]"]
    by simp
qed

section \<open>Free slots\<close>

lemma step_us_pos: "0 < step_us"
  by (simp add: step_us_def timedelta_minutes_def SLOT_STEP_MIN_def MINUTE_US_def)

lemma grid_unfold:
  assumes "0 < (s::int)"
  shows "(cur \<le> t \<and> s dvd (t - cur)) \<longleftrightarrow> (t = cur \<or> (cur + s \<le> t \<and> s dvd (t - (cur + s))))"
proof
  assume a: "cur \<le> t \<and> s dvd (t - cur)"
  show "t = cur \<or> (cur + s \<le> t \<and> s dvd (t - (cur + s)))"
  proof (cases "t = cur")
    case True
    then show ?thesis by simp
  next
    case False
    then have "0 < t - cur" using a by simp
    then have "s \<le> t - cur" using a zdvd_imp_le by blast
    moreover have "s dvd (t - cur - s)" using a by (simp add: dvd_diff)
    moreover have "t - cur - s = t - (cur + s)" by simp
    ultimately show ?thesis by simp
  qed
next
  assume a: "t = cur \<or> (cur + s \<le> t \<and> s dvd (t - (cur + s)))"
  show "cur \<le> t \<and> s dvd (t - cur)"
  proof (cases "t = cur")
    case True
    then show ?thesis by simp
  next
    case False
    then have b: "cur + s \<le> t" "s dvd (t - (cur + s))" using a by simp_all
    have "s dvd (t - (cur + s) + s)" using b(2) by (rule dvd_add) simp
    moreover have "t - (cur + s) + s = t - cur" by simp
    ultimately have "s dvd (t - cur)" by simp
    then show ?thesis using b(1) assms by simp
  qed
qed

lemma candidates_unfold:
  assumes "cur \<le> fe"
  shows "candidates now need fe cur =
           (if offerable now need fe cur then {cur} else {}) \<union>
           candidates now need fe (cur + step_us)"
proof (rule set_eqI)
  fix t
  have g: "(cur \<le> t \<and> step_us dvd (t - cur)) \<longleftrightarrow>
           (t = cur \<or> (cur + step_us \<le> t \<and> step_us dvd (t - (cur + step_us))))"
    using step_us_pos by (rule grid_unfold)
  have "t \<in> candidates now need fe cur \<longleftrightarrow>
        (cur \<le> t \<and> step_us dvd (t - cur)) \<and> t \<le> fe \<and> offerable now need fe t"
    by (simp add: candidates_def)
  also have "\<dots> \<longleftrightarrow>
        (t = cur \<or> (cur + step_us \<le> t \<and> step_us dvd (t - (cur + step_us)))) \<and>
        t \<le> fe \<and> offerable now need fe t"
    by (simp only: g)
  also have "\<dots> \<longleftrightarrow>
        (t = cur \<and> offerable now need fe cur) \<or> t \<in> candidates now need fe (cur + step_us)"
    using assms by (auto simp: candidates_def)
  finally show "t \<in> candidates now need fe cur \<longleftrightarrow>
        t \<in> (if offerable now need fe cur then {cur} else {}) \<union>
            candidates now need fe (cur + step_us)"
    by auto
qed

lemma candidates_empty: "fe < cur \<Longrightarrow> candidates now need fe cur = {}"
  unfolding candidates_def by auto

lemma slot_while_set:
  "set (slot_while now need fe cur slots) = set slots \<union> candidates now need fe cur"
proof (induction now need fe cur slots rule: slot_while.induct)
  case (1 now need fe cur slots)
  show ?case
  proof (cases "cur \<le> fe")
    case False
    then show ?thesis by (simp add: slot_while.simps[of now need fe cur] candidates_empty)
  next
    case True
    let ?slots' = "(if cur > now then
             (if cur < fe then (if cur + need \<le> fe then slots @ [cur] else slots)
              else (if hhmm_of fe = WORK_END then slots @ [cur] else slots))
           else slots)"
    have s: "set ?slots' = set slots \<union> (if offerable now need fe cur then {cur} else {})"
      using True by (auto simp: offerable_def)
    have "slot_while now need fe cur slots =
          slot_while now need fe (cur + timedelta_minutes SLOT_STEP_MIN) ?slots'"
      using True by (subst slot_while.simps) simp
    then have "set (slot_while now need fe cur slots) =
          set ?slots' \<union> candidates now need fe (cur + timedelta_minutes SLOT_STEP_MIN)"
      using 1[OF True] by simp
    then show ?thesis
      using s candidates_unfold[OF True, of now need] by (simp add: step_us_def Un_assoc)
  qed
qed

lemma slots_loop_set:
  "set (slots_loop now need free slots) =
     set slots \<union> (\<Union>iv\<in>set free. candidates now need (snd iv) (first_candidate (fst iv)))"
proof (induction free arbitrary: slots)
  case Nil
  show ?case by simp
next
  case (Cons iv free)
  obtain fs fe where iv: "iv = (fs, fe)" by (cases iv)
  show ?case unfolding iv by (simp add: Cons.IH slot_while_set Un_assoc)
qed

lemma step_us_val: "step_us = 900000000"
  by (simp add: step_us_def timedelta_minutes_def SLOT_STEP_MIN_def MINUTE_US_def)

lemma day_start_val: "day_start d = d * 86400000000 + 29700000000"
  by (simp add: day_start_def dt_on_def WORK_START_def timedelta_minutes_def BUFFER_MIN_def
        DAY_US_def MINUTE_US_def)

lemma day_end_val: "day_end d = d * 86400000000 + 64800000000"
  by (simp add: day_end_def dt_on_def WORK_END_def DAY_US_def MINUTE_US_def)

lemma day_start_lt_day_end: "day_start d < day_end d"
  by (simp add: day_start_val day_end_val)

lemma day_start_grid: "day_start d = (d * 96 + 33) * step_us"
  by (simp add: day_start_val step_us_val algebra_simps)

lemma on_grid_dvd: "on_grid t \<longleftrightarrow> step_us dvd t"
  by (simp add: on_grid_def step_us_def dvd_eq_mod_eq_0)

lemma grid_from_day_start: "step_us dvd (t - day_start d) \<longleftrightarrow> on_grid t"
proof -
  have "step_us dvd day_start d" by (simp add: day_start_grid)
  then show ?thesis by (simp add: on_grid_dvd dvd_diff_left_iff)
qed

lemma minute_of_day_start: "minute_of (day_start d) = 15"
proof -
  have "day_start d = (d * 1440 + 495) * MINUTE_US"
    by (simp add: day_start_val MINUTE_US_def algebra_simps)
  then have "day_start d div MINUTE_US = d * 1440 + 495"
    by (simp add: MINUTE_US_def)
  moreover have "d * 1440 + 495 = 15 + (d * 24 + 8) * 60" by simp
  moreover have "(15 + (d * 24 + 8) * 60) mod 60 = (15::int) mod 60" by (rule mod_mult_self1)
  ultimately show ?thesis by (simp add: minute_of_def)
qed

lemma first_candidate_day_start: "first_candidate (day_start d) = day_start d"
  by (simp add: first_candidate_def minute_of_day_start SLOT_STEP_MIN_def)

lemma hhmm_of_day_end: "hhmm_of (day_end d) = WORK_END"
proof -
  have "day_end d = (d * 1440 + 1080) * MINUTE_US"
    by (simp add: day_end_val MINUTE_US_def algebra_simps)
  then have "day_end d div MINUTE_US = d * 1440 + 1080"
    by (simp add: MINUTE_US_def)
  moreover have "d * 1440 + 1080 = 0 + (d * 24 + 18) * 60" by simp
  moreover have "(0 + (d * 24 + 18) * 60) mod 60 = (0::int) mod 60" by (rule mod_mult_self1)
  ultimately have m: "minute_of (day_end d) = 0" by (simp add: minute_of_def)
  have "day_end d = 64800000000 + d * DAY_US"
    by (simp add: day_end_val DAY_US_def MINUTE_US_def)
  then have "day_end d mod DAY_US = (64800000000 + d * DAY_US) mod DAY_US" by simp
  also have "\<dots> = 64800000000 mod DAY_US" by (rule mod_mult_self1)
  also have "\<dots> = 64800000000" by (simp add: DAY_US_def MINUTE_US_def)
  finally have "hour_of (day_end d) = 18" by (simp add: hour_of_def MINUTE_US_def)
  then show ?thesis using m by (simp add: hhmm_of_def WORK_END_def)
qed

lemma free_intervals_Nil: "ds < de \<Longrightarrow> free_intervals ds de [] = [(ds, de)]"
  by (simp add: free_intervals_def)

lemma compute_free_slots_set:
  assumes "list_busy_intervals orc d = Inr busy"
  shows "\<exists>slots. compute_free_slots_for_date orc now d m = Inr slots \<and>
           sorted slots \<and> distinct slots \<and>
           set slots = (\<Union>iv\<in>set (free_intervals (day_start d) (day_end d) busy).
                          candidates now (timedelta_minutes m) (snd iv) (first_candidate (fst iv)))"
proof -
  have "\<not> day_end d \<le> day_start d" using day_start_lt_day_end[of d] by simp
  then have "compute_free_slots_for_date orc now d m =
      Inr (sort (remdups (slots_loop now (timedelta_minutes m)
             (free_intervals (day_start d) (day_end d) busy) [])))"
    using assms unfolding compute_free_slots_for_date_def day_start_def day_end_def Let_def
    by simp
  then show ?thesis by (simp add: slots_loop_set)
qed

lemma candidates_whole_day:
  "candidates now need (day_end d) (day_start d) =
     {t. day_start d \<le> t \<and> t \<le> day_end d \<and> on_grid t \<and> now < t \<and>
         (t + need \<le> day_end d \<or> t = day_end d)}"
proof (rule set_eqI)
  fix t
  have "t \<in> candidates now need (day_end d) (day_start d) \<longleftrightarrow>
        day_start d \<le> t \<and> on_grid t \<and> t \<le> day_end d \<and> now < t \<and>
        ((t < day_end d \<and> t + need \<le> day_end d) \<or> t = day_end d)"
    by (simp add: candidates_def offerable_def grid_from_day_start hhmm_of_day_end)
  also have "\<dots> \<longleftrightarrow> day_start d \<le> t \<and> t \<le> day_end d \<and> on_grid t \<and> now < t \<and>
         (t + need \<le> day_end d \<or> t = day_end d)"
    by linarith
  finally show "t \<in> candidates now need (day_end d) (day_start d) \<longleftrightarrow>
     t \<in> {t. day_start d \<le> t \<and> t \<le> day_end d \<and> on_grid t \<and> now < t \<and>
         (t + need \<le> day_end d \<or> t = day_end d)}"
    by simp
qed

lemma compute_free_slots_empty_busy:
  assumes "list_busy_intervals orc d = Inr []"
  shows "\<exists>slots. compute_free_slots_for_date orc now d m = Inr slots \<and>
           sorted slots \<and> distinct slots \<and>
           set slots = {t. day_start d \<le> t \<and> t \<le> day_end d \<and> on_grid t \<and> now < t \<and>
                           (t + timedelta_minutes m \<le> day_end d \<or> t = day_end d)}"
proof -
  have f: "free_intervals (day_start d) (day_end d) [] = [(day_start d, day_end d)]"
    using day_start_lt_day_end by (rule free_intervals_Nil)
  obtain slots where s: "compute_free_slots_for_date orc now d m = Inr slots"
      "sorted slots" "distinct slots"
      "set slots = (\<Union>iv\<in>set (free_intervals (day_start d) (day_end d) []).
                          candidates now (timedelta_minutes m) (snd iv) (first_candidate (fst iv)))"
    using compute_free_slots_set[OF assms, of now m] by blast
  have "set slots = candidates now (timedelta_minutes m) (day_end d) (day_start d)"
    unfolding s(4) f by (simp add: first_candidate_day_start)
  then show ?thesis using s(1,2,3) by (simp only: candidates_whole_day) blast
qed

text \<open>
  C7.  For a day whose busy list is empty, \<open>compute_free_slots_for_date\<close> returns, sorted and
  without duplicates, exactly the instants of the step grid from the start of work plus the
  buffer to the end of work that are strictly later than \<open>now\<close> and either leave room for
  the required minutes before the end of work or are the end of work itself.  A future
  grid instant that leaves no room for the required minutes is not returned, as the
  evaluation after the theorem shows for 17:15 and sixty minutes.
\<close>

theorem empty_day_slots:
  assumes "list_busy_intervals orc d = Inr []"
  shows "\<exists>slots. compute_free_slots_for_date orc now d m = Inr slots \<and>
           sorted slots \<and> distinct slots \<and>
           set slots = {t. day_start d \<le> t \<and> t \<le> day_end d \<and> on_grid t \<and> now < t \<and>
                           (t + timedelta_minutes m \<le> day_end d \<or> t = day_end d)}"
  using assms by (rule compute_free_slots_empty_busy)

theorem empty_day_slots_witness:
  "list_busy_intervals failing_calendar 0 = Inr [] \<and>
   (\<exists>slots. compute_free_slots_for_date failing_calendar 0 0 60 = Inr slots \<and>
      sorted slots \<and> distinct slots \<and>
      set slots = {t. day_start 0 \<le> t \<and> t \<le> day_end 0 \<and> on_grid t \<and> 0 < t \<and>
                      (t + timedelta_minutes 60 \<le> day_end 0 \<or> t = day_end 0)})"
proof -
  have h: "list_busy_intervals failing_calendar 0 = Inr []"
    by (simp add: list_busy_intervals_def failing_calendar_def)
  show ?thesis using h empty_day_slots [OF h, of 0 60] by simp
qed

theorem empty_day_full_grid_counterexample:
  "list_busy_intervals no_calendar 0 = Inr [] \<and>
   day_start 0 \<le> at 0 17 15 0 \<and> at 0 17 15 0 \<le> day_end 0 \<and> on_grid (at 0 17 15 0) \<and>
   0 < at 0 17 15 0 \<and>
   (\<exists>slots. compute_free_slots_for_date no_calendar 0 0 60 = Inr slots \<and>
      at 0 17 15 0 \<notin> set slots)"
proof -
  have h: "list_busy_intervals no_calendar 0 = Inr []"
    by (simp add: list_busy_intervals_def no_calendar_def)
  obtain slots where s: "compute_free_slots_for_date no_calendar 0 0 60 = Inr slots"
      "set slots = {t. day_start 0 \<le> t \<and> t \<le> day_end 0 \<and> on_grid t \<and> 0 < t \<and>
                      (t + timedelta_minutes 60 \<le> day_end 0 \<or> t = day_end 0)}"
    using compute_free_slots_empty_busy [OF h, of 0 60] by blast
  have v: "at 0 17 15 0 = 62100000000" by (simp add: time_consts)
  have g: "on_grid (at 0 17 15 0)"
    unfolding v by (simp add: on_grid_def timedelta_minutes_def SLOT_STEP_MIN_def MINUTE_US_def)
  have "at 0 17 15 0 \<notin> set slots"
    unfolding s(2) v by (simp add: day_end_val timedelta_minutes_def MINUTE_US_def)
  then show ?thesis
    using h s(1) g by (auto simp: v day_start_val day_end_val)
qed

section \<open>Listed slots at commit\<close>

lemma free_loop_new:
  assumes "sorted (map fst busy)" "ds \<le> cursor" "cursor < de"
    and "free_loop ds de busy free cursor = (free', cursor')"
  shows "\<exists>new. free' = free @ new \<and> cursor \<le> cursor' \<and>
           (\<forall>iv\<in>set new. cursor \<le> fst iv \<and> fst iv < snd iv \<and> snd iv \<le> de \<and>
                 (\<forall>b\<in>set busy. snd b \<le> fst iv \<or> snd iv \<le> fst b)) \<and>
           (de \<le> cursor' \<or> (\<forall>b\<in>set busy. snd b \<le> cursor' \<or> de \<le> fst b))"
  using assms
proof (induction busy arbitrary: free cursor)
  case Nil
  then show ?case by simp
next
  case (Cons b busy)
  obtain bs be where b: "b = (bs, be)" by (cases b)
  have sorted: "sorted (map fst busy)" and le: "\<forall>x\<in>set busy. bs \<le> fst x"
    using Cons.prems(1) b by simp_all
  show ?case
  proof (cases "be \<le> ds \<or> bs \<ge> de")
    case True
    then have "free_loop ds de busy free cursor = (free', cursor')"
      using Cons.prems(4) b by simp
    from Cons.IH[OF sorted Cons.prems(2) Cons.prems(3) this]
    obtain new where n: "free' = free @ new" "cursor \<le> cursor'"
      "\<forall>iv\<in>set new. cursor \<le> fst iv \<and> fst iv < snd iv \<and> snd iv \<le> de \<and>
                 (\<forall>b\<in>set busy. snd b \<le> fst iv \<or> snd iv \<le> fst b)"
      "de \<le> cursor' \<or> (\<forall>b\<in>set busy. snd b \<le> cursor' \<or> de \<le> fst b)"
      by blast
    have "\<forall>iv\<in>set new. snd b \<le> fst iv \<or> snd iv \<le> fst b"
      using n(3) True Cons.prems(2) b by fastforce
    moreover have "snd b \<le> cursor' \<or> de \<le> fst b"
      using True Cons.prems(2) n(2) b by auto
    ultimately show ?thesis using n by auto
  next
    case False
    let ?free1 = "(if bs > cursor then free @ [(cursor, min bs de)] else free)"
    let ?new1 = "(if bs > cursor then [(cursor, min bs de)] else [])"
    let ?c1 = "max cursor be"
    have f1: "?free1 = free @ ?new1" by simp
    have new1: "\<forall>iv\<in>set ?new1. cursor \<le> fst iv \<and> fst iv < snd iv \<and> snd iv \<le> de \<and>
                 (\<forall>x\<in>set (b # busy). snd iv \<le> fst x)"
      using False Cons.prems(3) le b by auto
    show ?thesis
    proof (cases "?c1 \<ge> de")
      case True
      then have "(free', cursor') = (?free1, ?c1)"
        using Cons.prems(4) False b by (simp add: Let_def)
      then have "free' = free @ ?new1" "cursor' = ?c1" by simp_all
      then show ?thesis using new1 True by auto
    next
      case c: False
      then have "free_loop ds de busy ?free1 ?c1 = (free', cursor')"
        using Cons.prems(4) False b by (simp add: Let_def)
      moreover have "ds \<le> ?c1" using Cons.prems(2) by linarith
      moreover have "?c1 < de" using c by linarith
      ultimately obtain new where n: "free' = ?free1 @ new" "?c1 \<le> cursor'"
        "\<forall>iv\<in>set new. ?c1 \<le> fst iv \<and> fst iv < snd iv \<and> snd iv \<le> de \<and>
                 (\<forall>b\<in>set busy. snd b \<le> fst iv \<or> snd iv \<le> fst b)"
        "de \<le> cursor' \<or> (\<forall>b\<in>set busy. snd b \<le> cursor' \<or> de \<le> fst b)"
        using Cons.IH[OF sorted] by blast
      have a: "free' = free @ (?new1 @ new)" using n(1) f1 by simp
      have b1: "\<forall>iv\<in>set ?new1. cursor \<le> fst iv \<and> fst iv < snd iv \<and> snd iv \<le> de \<and>
                 (\<forall>x\<in>set (b # busy). snd x \<le> fst iv \<or> snd iv \<le> fst x)"
        using new1 by blast
      have b2: "\<forall>iv\<in>set new. cursor \<le> fst iv \<and> fst iv < snd iv \<and> snd iv \<le> de \<and>
                 (\<forall>x\<in>set (b # busy). snd x \<le> fst iv \<or> snd iv \<le> fst x)"
        using n(3) b by fastforce
      have b3: "\<forall>iv\<in>set (?new1 @ new). cursor \<le> fst iv \<and> fst iv < snd iv \<and> snd iv \<le> de \<and>
                 (\<forall>x\<in>set (b # busy). snd x \<le> fst iv \<or> snd iv \<le> fst x)"
        using b1 b2 by (metis Un_iff set_append)
      have c1: "cursor \<le> cursor'" using n(2) by simp
      have c2: "de \<le> cursor' \<or> (\<forall>x\<in>set (b # busy). snd x \<le> cursor' \<or> de \<le> fst x)"
        using n(4) n(2) b by auto
      show ?thesis using a b3 c1 c2 by blast
    qed
  qed
qed

lemma free_intervals_props:
  assumes "ds < de" "sorted (map fst busy)" "iv \<in> set (free_intervals ds de busy)"
  shows "ds \<le> fst iv \<and> fst iv < snd iv \<and> snd iv \<le> de \<and>
         (\<forall>b\<in>set busy. snd b \<le> fst iv \<or> snd iv \<le> fst b)"
proof -
  obtain free' cursor' where fl: "free_loop ds de busy [] ds = (free', cursor')"
    by (cases "free_loop ds de busy [] ds")
  have "ds \<le> ds" by simp
  from free_loop_new[OF assms(2) this assms(1) fl]
  obtain new where n: "free' = [] @ new" "ds \<le> cursor'"
      "\<forall>iv\<in>set new. ds \<le> fst iv \<and> fst iv < snd iv \<and> snd iv \<le> de \<and>
                 (\<forall>b\<in>set busy. snd b \<le> fst iv \<or> snd iv \<le> fst b)"
      "de \<le> cursor' \<or> (\<forall>b\<in>set busy. snd b \<le> cursor' \<or> de \<le> fst b)"
    by blast
  have fi: "free_intervals ds de busy = (if cursor' < de then new @ [(cursor', de)] else new)"
    using fl n(1) by (simp add: free_intervals_def)
  show ?thesis
  proof (cases "iv \<in> set new")
    case True
    then show ?thesis using n(3) by blast
  next
    case False
    then have c: "cursor' < de" "iv = (cursor', de)"
      using assms(3) fi by (auto split: if_splits)
    then have "\<forall>b\<in>set busy. snd b \<le> cursor' \<or> de \<le> fst b" using n(4) by auto
    then show ?thesis using c n(2) by simp
  qed
qed

lemma list_busy_sorted:
  "list_busy_intervals orc d = Inr busy \<Longrightarrow> sorted (map fst busy)"
  using merge_intervals_sorted
  by (auto simp: list_busy_intervals_def split: service_handle.splits option.splits)

lemma first_candidate_ge: "fs \<le> first_candidate fs"
proof (cases "minute_of fs mod SLOT_STEP_MIN = 0")
  case True
  then show ?thesis by (simp add: first_candidate_def)
next
  case False
  let ?k = "SLOT_STEP_MIN - minute_of fs mod SLOT_STEP_MIN"
  let ?x = "fs + timedelta_minutes ?k"
  have "minute_of fs mod SLOT_STEP_MIN < SLOT_STEP_MIN"
    by (simp add: SLOT_STEP_MIN_def)
  then have "1 \<le> ?k" by simp
  then have "MINUTE_US \<le> timedelta_minutes ?k"
    by (simp add: timedelta_minutes_def MINUTE_US_def)
  moreover have "?x mod MINUTE_US < MINUTE_US"
    by (simp add: MINUTE_US_def)
  ultimately have "fs \<le> ?x - ?x mod MINUTE_US" by linarith
  then show ?thesis using False by (simp add: first_candidate_def Let_def replace_second0_def)
qed

lemma work_end_is_day_end:
  assumes "day_start d < fe" "fe \<le> day_end d" "hhmm_of fe = WORK_END"
  shows "fe = day_end d"
proof -
  let ?r = "fe - d * DAY_US"
  have r: "0 \<le> ?r" "?r < DAY_US"
    using assms(1,2) by (simp_all add: day_start_val day_end_val DAY_US_def MINUTE_US_def)
  have "fe = ?r + d * DAY_US" by simp
  then have "fe mod DAY_US = (?r + d * DAY_US) mod DAY_US" by simp
  also have "\<dots> = ?r mod DAY_US" by (rule mod_mult_self1)
  also have "\<dots> = ?r" using r by simp
  finally have m: "fe mod DAY_US = ?r" .
  have "hour_of fe = 18" using assms(3) by (simp add: hhmm_of_def WORK_END_def)
  then have q: "?r div 3600000000 = 18" using m by (simp add: hour_of_def MINUTE_US_def)
  have "3600000000 * (?r div 3600000000) + ?r mod 3600000000 = ?r"
    by (rule mult_div_mod_eq)
  moreover have "0 \<le> ?r mod 3600000000" by simp
  ultimately have "18 * 3600000000 \<le> ?r" unfolding q by linarith
  then show ?thesis using assms(2) by (simp add: day_end_val DAY_US_def MINUTE_US_def)
qed

lemma date_of_in_day:
  assumes "day_start d \<le> t" "t \<le> day_end d"
  shows "date_of t = d"
proof -
  let ?r = "t - d * DAY_US"
  have "0 \<le> ?r" "?r < DAY_US"
    using assms by (simp_all add: day_start_val day_end_val DAY_US_def MINUTE_US_def)
  then have "(d * DAY_US + ?r) div DAY_US = d" by (rule div_day_unique)
  then show ?thesis by (simp add: date_of_def)
qed

lemma compute_free_slots_busy:
  assumes "compute_free_slots_for_date orc now d m = Inr slots"
  shows "\<exists>busy. list_busy_intervals orc d = Inr busy"
proof (cases "list_busy_intervals orc d")
  case (Inl err)
  have "\<not> day_end d \<le> day_start d" using day_start_lt_day_end[of d] by simp
  then have "compute_free_slots_for_date orc now d m = Inl err"
    using Inl unfolding compute_free_slots_for_date_def day_start_def day_end_def Let_def
    by simp
  then show ?thesis using assms by simp
next
  case (Inr busy)
  then show ?thesis by blast
qed

lemma listed_slot_fits:
  assumes "list_busy_intervals orc d = Inr busy"
    and "compute_free_slots_for_date orc now d m = Inr slots"
    and "t \<in> set slots" and "t \<noteq> day_end d"
  shows "day_start d \<le> t \<and> t \<le> day_end d \<and>
         (\<forall>b\<in>set busy. \<not> overlaps t (t + timedelta_minutes m) b)"
proof -
  let ?need = "timedelta_minutes m"
  obtain slots' where s: "compute_free_slots_for_date orc now d m = Inr slots'"
      "set slots' = (\<Union>iv\<in>set (free_intervals (day_start d) (day_end d) busy).
                        candidates now ?need (snd iv) (first_candidate (fst iv)))"
    using compute_free_slots_set[OF assms(1), of now m] by blast
  have "slots' = slots" using s(1) assms(2) by simp
  then obtain iv where iv: "iv \<in> set (free_intervals (day_start d) (day_end d) busy)"
      "t \<in> candidates now ?need (snd iv) (first_candidate (fst iv))"
    using s(2) assms(3) by blast
  have p: "day_start d \<le> fst iv" "fst iv < snd iv" "snd iv \<le> day_end d"
      "\<forall>b\<in>set busy. snd b \<le> fst iv \<or> snd iv \<le> fst b"
    using free_intervals_props[OF day_start_lt_day_end list_busy_sorted[OF assms(1)] iv(1)]
    by simp_all
  have c: "first_candidate (fst iv) \<le> t" "t \<le> snd iv" "offerable now ?need (snd iv) t"
    using iv(2) by (simp_all add: candidates_def)
  have ge: "fst iv \<le> t" using c(1) first_candidate_ge[of "fst iv"] by linarith
  have "\<not> (t = snd iv \<and> hhmm_of (snd iv) = WORK_END)"
  proof
    assume a: "t = snd iv \<and> hhmm_of (snd iv) = WORK_END"
    have "day_start d < snd iv" using p(1,2) by linarith
    then have "snd iv = day_end d" using p(3) a by (intro work_end_is_day_end) simp_all
    then show False using a assms(4) by simp
  qed
  then have fit: "t + ?need \<le> snd iv" using c(3) by (auto simp: offerable_def)
  have "\<not> overlaps t (t + ?need) b" if "b \<in> set busy" for b
  proof -
    have "snd b \<le> fst iv \<or> snd iv \<le> fst b" using p(4) that by blast
    then show ?thesis using ge fit unfolding overlaps_def by linarith
  qed
  then show ?thesis using ge p(1,3) c(2) by auto
qed

text \<open>
  C6.  Let a slot be returned by \<open>compute_free_slots_for_date\<close> for a day and a number of
  minutes, other than the end of work of that day, and let the calendar give the same
  answers at commit.  Then for a draft with \<open>allow_overlap\<close> false whose date and time
  denote exactly that slot and whose service lasts that number of minutes,
  \<open>create_event_on_calendar\<close> does not return a conflict.  The slot at the end of work is
  returned whatever the duration, and booking it can conflict with an event after closing
  time: the evaluation after the theorem.
\<close>

theorem listed_slot_not_conflict:
  assumes "compute_free_slots_for_date orc now d m = Inr slots"
    and "t \<in> set slots" and "t \<noteq> day_end d"
    and "\<not> allow_overlap b" and "valid_time (time b)"
    and "dt_on (date b) (time b) = t"
    and "service_duration_minutes services (service b) = m"
  shows "\<not> is_conflict (fst (create_event_on_calendar orc services b inserted))"
proof (cases "calendar_service orc")
  case NoService
  then show ?thesis by (simp add: create_event_NoService is_conflict_simps)
next
  case InitRaises
  then show ?thesis by (simp add: create_event_InitRaises is_conflict_simps)
next
  case Service
  obtain busy where lb: "list_busy_intervals orc d = Inr busy"
    using compute_free_slots_busy[OF assms(1)] by blast
  have f: "day_start d \<le> t" "t \<le> day_end d"
      "\<forall>b\<in>set busy. \<not> overlaps t (t + timedelta_minutes m) b"
    using listed_slot_fits[OF lb assms(1,2,3)] by simp_all
  have "date_of t = d" using f(1,2) by (rule date_of_in_day)
  moreover have "date_of t = date b"
    using date_of_dt_on[OF assms(5), of "date b"] assms(6) by simp
  ultimately have lb': "list_busy_intervals orc (date b) = Inr busy" using lb by simp
  have "first_overlap t (t + timedelta_minutes m) busy = None"
    using f(3) by (simp add: first_overlap_None)
  then show ?thesis
    using create_event_Service[OF Service assms(5) lb', of services inserted] assms(4,6,7)
    by (simp add: Let_def insert_event_not_conflict)
qed

lemma evening_busy:
  "list_busy_intervals evening_calendar 0 = Inr [(at 0 18 15 0, at 0 19 45 0)]"
  by (simp add: list_busy_intervals_def evening_calendar_def one_event_def merge_intervals_def
        time_consts)

lemma demo_free:
  "free_intervals (day_start 0) (day_end 0) [(at 0 9 45 0, at 0 11 15 0)] =
     [(day_start 0, at 0 9 45 0), (at 0 11 15 0, day_end 0)]"
  by (simp add: free_intervals_def day_start_val day_end_val time_consts)

lemma evening_free:
  "free_intervals (day_start 0) (day_end 0) [(at 0 18 15 0, at 0 19 45 0)] =
     [(day_start 0, day_end 0)]"
  by (simp add: free_intervals_def day_start_val day_end_val time_consts)

lemma first_candidate_1115: "first_candidate (at 0 11 15 0) = at 0 11 15 0"
  by (simp add: first_candidate_def minute_of_def SLOT_STEP_MIN_def time_consts)

theorem listed_slot_not_conflict_witness:
  "(\<exists>slots. compute_free_slots_for_date demo_calendar 0 0 30 = Inr slots \<and>
      at 0 11 15 0 \<in> set slots) \<and>
   at 0 11 15 0 \<noteq> day_end 0 \<and> \<not> allow_overlap slot_booking \<and>
   valid_time (time slot_booking) \<and>
   dt_on (date slot_booking) (time slot_booking) = at 0 11 15 0 \<and>
   service_duration_minutes demo_services (service slot_booking) = 30 \<and>
   \<not> is_conflict (fst (create_event_on_calendar demo_calendar demo_services slot_booking []))"
proof -
  obtain slots where s: "compute_free_slots_for_date demo_calendar 0 0 30 = Inr slots"
      "set slots = (\<Union>iv\<in>set (free_intervals (day_start 0) (day_end 0)
                                  [(at 0 9 45 0, at 0 11 15 0)]).
                        candidates 0 (timedelta_minutes 30) (snd iv) (first_candidate (fst iv)))"
    using compute_free_slots_set[OF demo_busy, of 0 30] by blast
  have "at 0 11 15 0 \<in> candidates 0 (timedelta_minutes 30) (day_end 0) (at 0 11 15 0)"
    by (simp add: candidates_def offerable_def day_end_val time_consts)
  then have h2: "at 0 11 15 0 \<in> set slots"
    unfolding s(2) demo_free by (simp add: first_candidate_1115)
  have h3: "at 0 11 15 0 \<noteq> day_end 0" by (simp add: day_end_val time_consts)
  have h4: "\<not> allow_overlap slot_booking" by (simp add: slot_booking_def demo_booking_def)
  have h5: "valid_time (time slot_booking)" by (simp add: slot_booking_def valid_time_def)
  have h6: "dt_on (date slot_booking) (time slot_booking) = at 0 11 15 0"
    by (simp add: slot_booking_def demo_booking_def at_def)
  have h7: "service_duration_minutes demo_services (service slot_booking) = 30"
    by (simp add: slot_booking_def demo_booking_def demo_services_def)
  show ?thesis
    using listed_slot_not_conflict [OF s(1) h2 h3 h4 h5 h6 h7, of "[]"] s(1) h2 h3 h4 h5 h6 h7
    by blast
qed

theorem closing_slot_conflict_counterexample:
  "(\<exists>slots. compute_free_slots_for_date evening_calendar 0 0 30 = Inr slots \<and>
      at 0 18 0 0 \<in> set slots) \<and>
   \<not> allow_overlap closing_booking \<and> valid_time (time closing_booking) \<and>
   dt_on (date closing_booking) (time closing_booking) = at 0 18 0 0 \<and>
   service_duration_minutes demo_services (service closing_booking) = 30 \<and>
   create_event_on_calendar evening_calendar demo_services closing_booking [] =
     (Inr (Some (Conflict [(at 0 18 15 0, at 0 19 45 0)])), [])"
proof -
  obtain slots where s: "compute_free_slots_for_date evening_calendar 0 0 30 = Inr slots"
      "set slots = (\<Union>iv\<in>set (free_intervals (day_start 0) (day_end 0)
                                  [(at 0 18 15 0, at 0 19 45 0)]).
                        candidates 0 (timedelta_minutes 30) (snd iv) (first_candidate (fst iv)))"
    using compute_free_slots_set[OF evening_busy, of 0 30] by blast
  have e: "at 0 18 0 0 = day_end 0" by (simp add: day_end_val time_consts)
  have "day_end 0 \<in> candidates 0 (timedelta_minutes 30) (day_end 0) (day_start 0)"
    unfolding candidates_whole_day
    by (simp add: day_start_val day_end_val on_grid_def timedelta_minutes_def SLOT_STEP_MIN_def
          MINUTE_US_def)
  then have h2: "at 0 18 0 0 \<in> set slots"
    unfolding s(2) evening_free e by (simp add: first_candidate_day_start)
  have h4: "\<not> allow_overlap closing_booking" by (simp add: closing_booking_def demo_booking_def)
  have h5: "valid_time (time closing_booking)" by (simp add: closing_booking_def valid_time_def)
  have h6: "dt_on (date closing_booking) (time closing_booking) = at 0 18 0 0"
    by (simp add: closing_booking_def demo_booking_def at_def)
  have h7: "service_duration_minutes demo_services (service closing_booking) = 30"
    by (simp add: closing_booking_def demo_booking_def demo_services_def)
  have sv: "calendar_service evening_calendar = Service" by (simp add: evening_calendar_def)
  have lb: "list_busy_intervals evening_calendar (date closing_booking) =
      Inr [(at 0 18 15 0, at 0 19 45 0)]"
    using evening_busy by (simp add: closing_booking_def demo_booking_def)
  have fo: "first_overlap (at 0 18 0 0) (at 0 18 0 0 + timedelta_minutes 30)
              [(at 0 18 15 0, at 0 19 45 0)] = Some (at 0 18 15 0, at 0 19 45 0)"
    by (simp add: overlaps_def time_consts)
  have "create_event_on_calendar evening_calendar demo_services closing_booking [] =
     (Inr (Some (Conflict [(at 0 18 15 0, at 0 19 45 0)])), [])"
    using create_event_Service[OF sv h5 lb, of demo_services "[]"] h4 h6 h7 fo
    by (simp add: Let_def)
  then show ?thesis using s(1) h2 h4 h5 h6 h7 by blast
qed

section \<open>Candidates after a busy interval that ends between minutes\<close>

lemma seconds_busy:
  "list_busy_intervals seconds_calendar 0 = Inr [(at 0 8 45 0, at 0 10 0 30)]"
  by (simp add: list_busy_intervals_def seconds_calendar_def one_event_def merge_intervals_def
        time_consts)

lemma seconds_free:
  "free_intervals (day_start 0) (day_end 0) [(at 0 8 45 0, at 0 10 0 30)] =
     [(day_start 0, at 0 8 45 0), (at 0 10 0 30, day_end 0)]"
  by (simp add: free_intervals_def day_start_val day_end_val time_consts)

lemma first_candidate_100030: "first_candidate (at 0 10 0 30) = at 0 10 0 30"
  by (simp add: first_candidate_def minute_of_def SLOT_STEP_MIN_def time_consts)

text \<open>
  C1.  The characterisation of the returned instants as the future instants of the step
  grid inside a free interval that leave room for the duration (or are the end of work)
  does not hold of the code when a busy interval ends on a minute that is a multiple of
  the step but not on the full minute.  With one event from 09:00:00 to 09:45:30, the busy
  interval ends at 10:00:30 and the free interval after it starts there: the first
  candidate is 10:00:30 itself, which is returned though it is not on the grid, and the
  grid instant 10:15:00, which lies in the free interval and leaves room for sixty
  minutes, is not returned.  The branch for a minute that is not a multiple of the step
  clears the seconds; this one does not.  When every busy interval ends on a whole
  minute and the duration is positive the characterisation holds
  (\<open>free_slots_characterisation\<close>).
\<close>

theorem odd_seconds_slots_off_grid:
  "list_busy_intervals seconds_calendar 0 = Inr [(at 0 8 45 0, at 0 10 0 30)] \<and>
   free_intervals (day_start 0) (day_end 0) [(at 0 8 45 0, at 0 10 0 30)] =
     [(day_start 0, at 0 8 45 0), (at 0 10 0 30, day_end 0)] \<and>
   (\<exists>slots. compute_free_slots_for_date seconds_calendar 0 0 60 = Inr slots \<and>
      at 0 10 0 30 \<in> set slots \<and> \<not> on_grid (at 0 10 0 30) \<and>
      on_grid (at 0 10 15 0) \<and> at 0 10 0 30 \<le> at 0 10 15 0 \<and>
      at 0 10 15 0 + timedelta_minutes 60 \<le> day_end 0 \<and> at 0 10 15 0 \<notin> set slots)"
proof -
  obtain slots where s: "compute_free_slots_for_date seconds_calendar 0 0 60 = Inr slots"
      "set slots = (\<Union>iv\<in>set (free_intervals (day_start 0) (day_end 0)
                                  [(at 0 8 45 0, at 0 10 0 30)]).
                        candidates 0 (timedelta_minutes 60) (snd iv) (first_candidate (fst iv)))"
    using compute_free_slots_set[OF seconds_busy, of 0 60] by blast
  have s2: "set slots = candidates 0 (timedelta_minutes 60) (at 0 8 45 0) (day_start 0) \<union>
                        candidates 0 (timedelta_minutes 60) (day_end 0) (at 0 10 0 30)"
    unfolding s(2) seconds_free
    by (simp add: first_candidate_day_start first_candidate_100030)
  have a: "at 0 10 0 30 \<in> candidates 0 (timedelta_minutes 60) (day_end 0) (at 0 10 0 30)"
    by (simp add: candidates_def offerable_def day_end_val time_consts)
  have b: "at 0 10 15 0 \<notin> candidates 0 (timedelta_minutes 60) (at 0 8 45 0) (day_start 0)"
    by (simp add: candidates_def time_consts)
  have c: "at 0 10 15 0 \<notin> candidates 0 (timedelta_minutes 60) (day_end 0) (at 0 10 0 30)"
    by (simp add: candidates_def step_us_val time_consts)
  have g1: "\<not> on_grid (at 0 10 0 30)"
    by (simp add: on_grid_def SLOT_STEP_MIN_def time_consts)
  have g2: "on_grid (at 0 10 15 0)"
    by (simp add: on_grid_def SLOT_STEP_MIN_def time_consts)
  have o: "at 0 10 0 30 \<le> at 0 10 15 0" "at 0 10 15 0 + timedelta_minutes 60 \<le> day_end 0"
    by (simp_all add: day_end_val time_consts)
  have "at 0 10 0 30 \<in> set slots" "at 0 10 15 0 \<notin> set slots"
    using a b c unfolding s2 by simp_all
  then show ?thesis using seconds_busy seconds_free s(1) g1 g2 o by blast
qed

lemma odd_seconds_all_slots:
  "compute_free_slots_for_date seconds_calendar 0 0 60 =
     Inr (map (\<lambda>k. at 0 10 0 30 + k * 900000000) [0..27])"
  by code_simp

section \<open>Nearest free days\<close>

lemma nearest_loop_skip:
  assumes "found < 7" "d \<le> anchor + 30"
    and "compute_free_slots_for_date orc now (d + 1) m = Inr []"
  shows "nearest_loop orc now anchor m d found rows = nearest_loop orc now anchor m (d + 1) found rows"
  using assms by (subst nearest_loop.simps) (simp add: timedelta_days_def)

lemma nearest_loop_skip_many:
  assumes "found < 7"
    and "\<forall>d'. d < d' \<and> d' \<le> d + int k \<longrightarrow> compute_free_slots_for_date orc now d' m = Inr []"
    and "d + int k \<le> anchor + 31"
  shows "nearest_loop orc now anchor m d found rows =
         nearest_loop orc now anchor m (d + int k) found rows"
  using assms(2,3)
proof (induction k)
  case 0
  show ?case by simp
next
  case (Suc k)
  have "nearest_loop orc now anchor m d found rows =
        nearest_loop orc now anchor m (d + int k) found rows"
    using Suc by simp
  also have "\<dots> = nearest_loop orc now anchor m (d + int k + 1) found rows"
  proof (rule nearest_loop_skip[OF assms(1)])
    show "d + int k \<le> anchor + 30" using Suc.prems(2) by simp
    show "compute_free_slots_for_date orc now (d + int k + 1) m = Inr []"
      using Suc.prems(1) by simp
  qed
  finally show ?case by (simp add: ac_simps)
qed

lemma nearest_loop_take:
  assumes "found < 7" "d \<le> anchor + 30"
    and "compute_free_slots_for_date orc now (d + 1) m = Inr slots" "slots \<noteq> []"
  shows "nearest_loop orc now anchor m d found rows =
         nearest_loop orc now anchor m (d + 1) (found + 1) (rows @ [DayButton (d + 1) (length slots)])"
  using assms by (subst nearest_loop.simps) (simp add: timedelta_days_def)

lemma nearest_loop_stop:
  "\<not> (found < 7 \<and> d \<le> anchor + 30) \<Longrightarrow>
     nearest_loop orc now anchor m d found rows = Inr (found, rows)"
  by (subst nearest_loop.simps) (auto simp: timedelta_days_def)

lemma vacation_busy:
  assumes "1 \<le> d" "d \<le> 30"
  shows "list_busy_intervals vacation_calendar d = Inr [(at 1 0 0 0 - timedelta_minutes 15, at 31 0 0 0 + timedelta_minutes 15)]"
  using assms
  by (simp add: list_busy_intervals_def vacation_calendar_def one_event_def merge_intervals_def
        BUFFER_MIN_def)

lemma vacation_day_empty:
  assumes "1 \<le> d" "d \<le> 30"
  shows "compute_free_slots_for_date vacation_calendar now d m = Inr []"
proof -
  let ?a = "at 1 0 0 0 - timedelta_minutes 15"
  let ?b = "at 31 0 0 0 + timedelta_minutes 15"
  have v: "?a = 85500000000" "?b = 2679300000000" by (simp_all add: time_consts)
  have "free_loop (day_start d) (day_end d) [(?a, ?b)] [] (day_start d) = ([], ?b)"
    unfolding v using assms by (simp add: day_start_val day_end_val)
  moreover have "\<not> ?b < day_end d" unfolding v using assms by (simp add: day_end_val)
  ultimately have f: "free_intervals (day_start d) (day_end d) [(?a, ?b)] = []"
    by (simp add: free_intervals_def)
  obtain slots where s: "compute_free_slots_for_date vacation_calendar now d m = Inr slots"
      "set slots = (\<Union>iv\<in>set (free_intervals (day_start d) (day_end d) [(?a, ?b)]).
                        candidates now (timedelta_minutes m) (snd iv) (first_candidate (fst iv)))"
    using compute_free_slots_set[OF vacation_busy[OF assms], of now m] by blast
  have "slots = []" using s(2) unfolding f by simp
  then show ?thesis using s(1) by simp
qed

lemma nearest_loop_rows:
  assumes "nearest_loop orc now a m d found rows = Inr (found', rows')"
  shows "\<exists>new. rows' = rows @ new \<and> found' = found + length new \<and>
           (found \<le> 7 \<longrightarrow> found' \<le> 7) \<and>
           (\<forall>btn\<in>set new. \<exists>d' slots. btn = DayButton d' (length slots) \<and> d < d' \<and>
                d' \<le> a + 31 \<and> compute_free_slots_for_date orc now d' m = Inr slots \<and>
                slots \<noteq> [])"
  using assms
proof (induction orc now a m d found rows rule: nearest_loop.induct)
  case (1 orc now a m d found rows)
  show ?case
  proof (cases "found < 7 \<and> d \<le> a + 30")
    case False
    then have "Inr (found', rows') = (Inr (found, rows) :: error + nat \<times> button list)"
      using "1.prems" nearest_loop_stop[OF False, of orc now m rows] by simp
    then have "rows' = rows @ []" "found' = found + length ([] :: button list)" by simp_all
    then show ?thesis by fastforce
  next
    case True
    obtain slots where sl: "compute_free_slots_for_date orc now (d + 1) m = Inr slots"
      using "1.prems" True
      by (subst (asm) nearest_loop.simps) (auto simp: timedelta_days_def split: sum.splits)
    have sl': "compute_free_slots_for_date orc now (d + timedelta_days 1) m = Inr slots"
      using sl by (simp add: timedelta_days_def)
    have g: "found < 7 \<and> d \<le> a + timedelta_days 30"
      using True by (simp add: timedelta_days_def)
    show ?thesis
    proof (cases "slots = []")
      case e: True
      have "nearest_loop orc now a m (d + 1) found rows = Inr (found', rows')"
        using "1.prems" nearest_loop_skip[of found d a orc now m rows] True sl e by simp
      then have nl: "nearest_loop orc now a m (d + timedelta_days 1) found rows = Inr (found', rows')"
        by (simp add: timedelta_days_def)
      have e': "\<not> slots \<noteq> []" using e by simp
      from "1.IH"(2)[OF g sl' e' nl]
      obtain new where n: "rows' = rows @ new" "found' = found + length new"
        "found \<le> 7 \<longrightarrow> found' \<le> 7"
        "\<forall>btn\<in>set new. \<exists>d' slots. btn = DayButton d' (length slots) \<and>
            d + timedelta_days 1 < d' \<and> d' \<le> a + 31 \<and>
            compute_free_slots_for_date orc now d' m = Inr slots \<and> slots \<noteq> []"
        by auto
      have "\<forall>btn\<in>set new. \<exists>d' slots. btn = DayButton d' (length slots) \<and>
            d < d' \<and> d' \<le> a + 31 \<and>
            compute_free_slots_for_date orc now d' m = Inr slots \<and> slots \<noteq> []"
        using n(4) by (fastforce simp: timedelta_days_def)
      then show ?thesis using n(1,2,3) by blast
    next
      case ne: False
      let ?btn = "DayButton (d + timedelta_days 1) (length slots)"
      have "nearest_loop orc now a m (d + 1) (found + 1) (rows @ [DayButton (d + 1) (length slots)])
              = Inr (found', rows')"
        using "1.prems" nearest_loop_take[of found d a orc now m slots rows] True sl ne by simp
      then have "nearest_loop orc now a m (d + timedelta_days 1) (found + 1) (rows @ [?btn])
              = Inr (found', rows')"
        by (simp add: timedelta_days_def)
      from "1.IH"(1)[OF g sl' ne this]
      obtain new where n: "rows' = (rows @ [?btn]) @ new" "found' = found + 1 + length new"
        "found + 1 \<le> 7 \<longrightarrow> found' \<le> 7"
        "\<forall>btn\<in>set new. \<exists>d' slots. btn = DayButton d' (length slots) \<and>
            d + timedelta_days 1 < d' \<and> d' \<le> a + 31 \<and>
            compute_free_slots_for_date orc now d' m = Inr slots \<and> slots \<noteq> []"
        by auto
      have a: "rows' = rows @ (?btn # new)" "found' = found + length (?btn # new)"
        using n(1,2) by simp_all
      have b: "found \<le> 7 \<longrightarrow> found' \<le> 7" using n(3) True by simp
      have c1: "\<exists>d' slots'. ?btn = DayButton d' (length slots') \<and> d < d' \<and> d' \<le> a + 31 \<and>
            compute_free_slots_for_date orc now d' m = Inr slots' \<and> slots' \<noteq> []"
        using sl' ne True by (intro exI[of _ "d + timedelta_days 1"] exI[of _ slots])
                             (simp add: timedelta_days_def)
      have c2: "\<forall>btn\<in>set new. \<exists>d' slots. btn = DayButton d' (length slots) \<and>
            d < d' \<and> d' \<le> a + 31 \<and>
            compute_free_slots_for_date orc now d' m = Inr slots \<and> slots \<noteq> []"
        using n(4) by (fastforce simp: timedelta_days_def)
      have c: "\<forall>btn\<in>set (?btn # new). \<exists>d' slots. btn = DayButton d' (length slots) \<and>
            d < d' \<and> d' \<le> a + 31 \<and>
            compute_free_slots_for_date orc now d' m = Inr slots \<and> slots \<noteq> []"
        using c1 c2 by simp
      show ?thesis using a b c by blast
    qed
  qed
qed

lemma nearest_free_days_offers:
  assumes "nearest_free_days_keyboard orc now a m = Inr rows"
  shows "length (filter (\<lambda>btn. btn \<noteq> NoFreeDays \<and> btn \<noteq> BackToTime a) rows) \<le> 7 \<and>
         (\<forall>d' n. DayButton d' n \<in> set rows \<longrightarrow>
            a < d' \<and> d' \<le> a + 31 \<and>
            (\<exists>slots. compute_free_slots_for_date orc now d' m = Inr slots \<and> slots \<noteq> [] \<and>
                      n = length slots))"
proof -
  obtain found rows0 where l: "nearest_loop orc now a m a 0 [] = Inr (found, rows0)"
    and r: "rows = (if found = 0 then rows0 @ [NoFreeDays] else rows0) @ [BackToTime a]"
    using assms
    by (auto simp: nearest_free_days_keyboard_def split: sum.splits prod.splits)
  obtain new where n: "rows0 = [] @ new" "found = 0 + length new" "0 \<le> (7::nat) \<longrightarrow> found \<le> 7"
     "\<forall>btn\<in>set new. \<exists>d' slots. btn = DayButton d' (length slots) \<and> a < d' \<and>
                d' \<le> a + 31 \<and> compute_free_slots_for_date orc now d' m = Inr slots \<and>
                slots \<noteq> []"
    using nearest_loop_rows[OF l] by blast
  have d: "\<forall>btn\<in>set rows0. btn \<noteq> NoFreeDays \<and> btn \<noteq> BackToTime a"
    using n(1,4) by auto
  then have "filter (\<lambda>btn. btn \<noteq> NoFreeDays \<and> btn \<noteq> BackToTime a) rows0 = rows0"
    by (simp add: filter_id_conv)
  then have "filter (\<lambda>btn. btn \<noteq> NoFreeDays \<and> btn \<noteq> BackToTime a) rows = rows0"
    using r by simp
  then have "length (filter (\<lambda>btn. btn \<noteq> NoFreeDays \<and> btn \<noteq> BackToTime a) rows) \<le> 7"
    using n(1,2,3) by simp
  moreover have "a < d' \<and> d' \<le> a + 31 \<and>
            (\<exists>slots. compute_free_slots_for_date orc now d' m = Inr slots \<and> slots \<noteq> [] \<and>
                      n' = length slots)" if "DayButton d' n' \<in> set rows" for d' n'
  proof -
    have "DayButton d' n' \<in> set new" using that r n(1) by (auto split: if_splits)
    then show ?thesis using n(4) by fastforce
  qed
  ultimately show ?thesis by blast
qed

text \<open>
  C9.  The loop of \<open>nearest_free_days_keyboard\<close> tests \<open>d <= anchor + 30\<close> before it
  advances \<open>d\<close>, so the last day it examines is the 31st after the anchor.  With a
  calendar that is busy on days 1 to 30 and free on day 31, and anchor 0, the keyboard
  offers day 31.  (At most seven days are offered, each after the anchor and with a
  non-empty slot list: \<open>nearest_free_days_offers\<close>, where the bound on the day is 31.)
\<close>

theorem nearest_days_offers_day_31:
  "\<exists>slots. compute_free_slots_for_date vacation_calendar 0 31 60 = Inr slots \<and> slots \<noteq> [] \<and>
     nearest_free_days_keyboard vacation_calendar 0 0 60 =
       Inr [DayButton 31 (length slots), BackToTime 0]"
proof -
  have lb: "list_busy_intervals vacation_calendar 31 = Inr []"
    by (simp add: list_busy_intervals_def vacation_calendar_def merge_intervals_def)
  obtain slots where s: "compute_free_slots_for_date vacation_calendar 0 31 60 = Inr slots"
      "set slots = {t. day_start 31 \<le> t \<and> t \<le> day_end 31 \<and> on_grid t \<and> 0 < t \<and>
                      (t + timedelta_minutes 60 \<le> day_end 31 \<or> t = day_end 31)}"
    using compute_free_slots_empty_busy[OF lb, of 0 60] by blast
  have "day_end 31 \<in> set slots"
    unfolding s(2)
    by (simp add: day_start_val day_end_val on_grid_def timedelta_minutes_def SLOT_STEP_MIN_def
          MINUTE_US_def)
  then have ne: "slots \<noteq> []" by auto
  have e: "\<forall>d'. 0 < d' \<and> d' \<le> 0 + int 30 \<longrightarrow>
             compute_free_slots_for_date vacation_calendar 0 d' 60 = Inr []"
    using vacation_day_empty by simp
  have "nearest_loop vacation_calendar 0 0 60 0 0 [] =
        nearest_loop vacation_calendar 0 0 60 (0 + int 30) 0 []"
    by (rule nearest_loop_skip_many[OF _ e]) simp_all
  also have "\<dots> = nearest_loop vacation_calendar 0 0 60 30 0 []" by simp
  also have "\<dots> = nearest_loop vacation_calendar 0 0 60 (30 + 1) (0 + 1)
                      ([] @ [DayButton (30 + 1) (length slots)])"
    by (rule nearest_loop_take) (use s(1) ne in simp_all)
  also have "\<dots> = nearest_loop vacation_calendar 0 0 60 31 1 [DayButton 31 (length slots)]"
    by simp
  also have "\<dots> = Inr (1, [DayButton 31 (length slots)])"
    by (rule nearest_loop_stop) simp
  finally have "nearest_free_days_keyboard vacation_calendar 0 0 60 =
       Inr [DayButton 31 (length slots), BackToTime 0]"
    by (simp add: nearest_free_days_keyboard_def)
  then show ?thesis using s(1) ne by blast
qed

section \<open>Confirming when the calendar cannot be used\<close>

lemma create_event_unreachable:
  assumes "unreachable orc" "valid_time (time b)"
  shows "create_event_on_calendar orc services b inserted = (Inr None, inserted)"
proof (cases "calendar_service orc = NoService")
  case True
  then show ?thesis by (rule create_event_NoService)
next
  case False
  then have s: "calendar_service orc = Service" and l: "\<forall>d. events_list orc d = None"
    and i: "\<forall>e. events_insert orc e = None"
    using assms(1) by (simp_all add: unreachable_def)
  have lb: "list_busy_intervals orc (date b) = Inr []"
    using s l by (simp add: list_busy_intervals_def)
  show ?thesis
    using create_event_Service[OF s assms(2) lb, of services inserted] i
    by (simp add: Let_def insert_event_def)
qed

lemma book_confirm_unavailable:
  assumes "draft w = Some b0"
    and "b = b0\<lparr>timestamp := stamp ev, username := user_tag ev\<rparr>"
    and "create_event_on_calendar (gcal ev) (SERVICES ev) b (calendar_events w) =
           (Inr None, calendar_events w)"
    and "r = Booked \<lparr>row_booking = b, row_eventId = [], row_htmlLink = []\<rparr>"
    and "w' = snd (book_confirm ev Book_send w)"
  shows "fst (book_confirm ev Book_send w) = Inr END \<and>
         bookings_csv w' = bookings_csv w @ [r] \<and>
         gsheet_rows w' = (if gsheet_ok ev then gsheet_rows w @ [r] else gsheet_rows w) \<and>
         shown w' = shown w @ [ReplyThanks False True] \<and>
         admin_messages w' = admin_messages w @ map (\<lambda>cid. (cid, b, [], False)) (admin_ids ev) \<and>
         calendar_events w' = calendar_events w \<and> draft w' = None"
  using assms(1,3) unfolding assms(5) assms(4) assms(2)
  by (simp add: book_confirm_def Let_def append_booking_row_csv_def append_gsheet_row_def
        send_admin_def)

text \<open>
  C5.  If the calendar cannot be used when the booking is sent (no service handle, or the
  listing and the insertion calls fail), \<open>create_event_on_calendar\<close> returns \<open>None\<close> and not
  a conflict, and \<open>book_confirm\<close> ends the conversation after appending the booking with
  empty event id and link to the bookings file, appending the same row to the sheet when
  the sheet accepts it, and showing the thanks message with the note that the calendar is
  unavailable.  When the sheet is not configured no sheet row is written.
\<close>

theorem unreachable_calendar_booking_recorded:
  assumes "unreachable (gcal ev)" and "draft w = Some b0" and "valid_time (time b0)"
    and "b = b0\<lparr>timestamp := stamp ev, username := user_tag ev\<rparr>"
    and "r = Booked \<lparr>row_booking = b, row_eventId = [], row_htmlLink = []\<rparr>"
    and "w' = snd (book_confirm ev Book_send w)"
  shows "create_event_on_calendar (gcal ev) (SERVICES ev) b (calendar_events w) =
           (Inr None, calendar_events w) \<and>
         fst (book_confirm ev Book_send w) = Inr END \<and>
         bookings_csv w' = bookings_csv w @ [r] \<and>
         gsheet_rows w' = (if gsheet_ok ev then gsheet_rows w @ [r] else gsheet_rows w) \<and>
         shown w' = shown w @ [ReplyThanks False True] \<and>
         calendar_events w' = calendar_events w \<and> draft w' = None"
proof -
  have v: "valid_time (time b)" using assms(3,4) by simp
  have c: "create_event_on_calendar (gcal ev) (SERVICES ev) b (calendar_events w) =
           (Inr None, calendar_events w)"
    using assms(1) v by (rule create_event_unreachable)
  show ?thesis
    using c book_confirm_unavailable[OF assms(2) assms(4) c assms(5) assms(6)] by simp
qed

theorem unreachable_calendar_booking_recorded_witness:
  "unreachable (gcal online_env) \<and> draft demo_world = Some demo_booking \<and>
   valid_time (time demo_booking) \<and>
   fst (book_confirm online_env Book_send demo_world) = Inr END \<and>
   bookings_csv (snd (book_confirm online_env Book_send demo_world)) =
     [Booked \<lparr>row_booking = demo_booking, row_eventId = [], row_htmlLink = []\<rparr>] \<and>
   gsheet_rows (snd (book_confirm online_env Book_send demo_world)) =
     [Booked \<lparr>row_booking = demo_booking, row_eventId = [], row_htmlLink = []\<rparr>] \<and>
   shown (snd (book_confirm online_env Book_send demo_world)) = [ReplyThanks False True]"
proof -
  have h1: "unreachable (gcal online_env)"
    by (simp add: unreachable_def online_env_def failing_calendar_def)
  have h2: "draft demo_world = Some demo_booking" by (simp add: demo_world_def)
  have h3: "valid_time (time demo_booking)" by (simp add: demo_booking_def valid_time_def)
  have h4: "demo_booking = demo_booking\<lparr>timestamp := stamp online_env,
              username := user_tag online_env\<rparr>"
    by (simp add: demo_booking_def online_env_def)
  show ?thesis
    using unreachable_calendar_booking_recorded [OF h1 h2 h3 h4 refl refl] h1 h2 h3
    by (simp add: demo_world_def online_env_def)
qed

theorem sheet_row_missing_counterexample:
  "unreachable (gcal offline_env) \<and> draft demo_world = Some demo_booking \<and>
   valid_time (time demo_booking) \<and>
   fst (book_confirm offline_env Book_send demo_world) = Inr END \<and>
   bookings_csv (snd (book_confirm offline_env Book_send demo_world)) =
     [Booked \<lparr>row_booking = demo_booking, row_eventId = [], row_htmlLink = []\<rparr>] \<and>
   gsheet_rows (snd (book_confirm offline_env Book_send demo_world)) = []"
proof -
  have h1: "unreachable (gcal offline_env)"
    by (simp add: unreachable_def offline_env_def no_calendar_def)
  have h2: "draft demo_world = Some demo_booking" by (simp add: demo_world_def)
  have h3: "valid_time (time demo_booking)" by (simp add: demo_booking_def valid_time_def)
  have h4: "demo_booking = demo_booking\<lparr>timestamp := stamp offline_env,
              username := user_tag offline_env\<rparr>"
    by (simp add: demo_booking_def offline_env_def)
  have c: "create_event_on_calendar (gcal offline_env) (SERVICES offline_env) demo_booking
             (calendar_events demo_world) = (Inr None, calendar_events demo_world)"
    using h1 h3 by (rule create_event_unreachable)
  show ?thesis
    using book_confirm_unavailable[OF h2 h4 c refl refl] h1 h2 h3
    by (simp add: demo_world_def offline_env_def)
qed

section \<open>The returned slots when busy intervals end on whole minutes\<close>

lemma free_loop_prefix:
  "free_loop ds de busy free cursor = (free', cursor') \<Longrightarrow> set free \<subseteq> set free'"
proof (induction busy arbitrary: free cursor)
  case Nil
  then show ?case by simp
next
  case (Cons b busy)
  obtain bs be where b: "b = (bs, be)" by (cases b)
  show ?case
  proof (cases "be \<le> ds \<or> bs \<ge> de")
    case True
    then show ?thesis using Cons b by simp
  next
    case False
    let ?free1 = "(if bs > cursor then free @ [(cursor, min bs de)] else free)"
    let ?c1 = "max cursor be"
    have s: "set free \<subseteq> set ?free1" by auto
    show ?thesis
    proof (cases "?c1 \<ge> de")
      case True
      then have "(free', cursor') = (?free1, ?c1)"
        using Cons.prems False b by (simp add: Let_def)
      then show ?thesis using s by simp
    next
      case c: False
      then have "free_loop ds de busy ?free1 ?c1 = (free', cursor')"
        using Cons.prems False b by (simp add: Let_def)
      then have "set ?free1 \<subseteq> set free'" by (rule Cons.IH)
      then show ?thesis using s by blast
    qed
  qed
qed

lemma free_loop_cover:
  assumes "ds \<le> cursor" "cursor < de"
    and "free_loop ds de busy free cursor = (free', cursor')"
    and "cursor \<le> t" "t < u" "u \<le> de"
    and "\<forall>b\<in>set busy. snd b \<le> t \<or> u \<le> fst b"
  shows "(\<exists>iv\<in>set free'. fst iv \<le> t \<and> u \<le> snd iv) \<or> (cursor' \<le> t \<and> cursor' < de)"
  using assms(1,2,3,4,7)
proof (induction busy arbitrary: free cursor)
  case Nil
  then show ?case by simp
next
  case (Cons b busy)
  obtain bs be where b: "b = (bs, be)" by (cases b)
  have rest: "\<forall>x\<in>set busy. snd x \<le> t \<or> u \<le> fst x" using Cons.prems(5) by simp
  have hd: "be \<le> t \<or> u \<le> bs" using Cons.prems(5) b by simp
  show ?case
  proof (cases "be \<le> ds \<or> bs \<ge> de")
    case True
    then have "free_loop ds de busy free cursor = (free', cursor')"
      using Cons.prems(3) b by simp
    then show ?thesis
      using Cons.IH[OF Cons.prems(1) Cons.prems(2) _ Cons.prems(4) rest] by blast
  next
    case False
    let ?free1 = "(if bs > cursor then free @ [(cursor, min bs de)] else free)"
    let ?c1 = "max cursor be"
    show ?thesis
    proof (cases "u \<le> bs")
      case True
      then have gt: "bs > cursor" using Cons.prems(4) assms(5) by linarith
      have m: "min bs de = bs" using False by simp
      have sub: "set ?free1 \<subseteq> set free'"
      proof (cases "?c1 \<ge> de")
        case True
        then have "(free', cursor') = (?free1, ?c1)"
          using Cons.prems(3) False b by (simp add: Let_def)
        then show ?thesis by simp
      next
        case c: False
        then have fl: "free_loop ds de busy ?free1 ?c1 = (free', cursor')"
          using Cons.prems(3) False b by (simp add: Let_def)
        show ?thesis using fl by (rule free_loop_prefix)
      qed
      have "(cursor, bs) \<in> set ?free1" using gt m by simp
      then have "(cursor, bs) \<in> set free'" using sub by blast
      then show ?thesis using True Cons.prems(4) by force
    next
      case nu: False
      then have bt: "be \<le> t" using hd by simp
      have c: "\<not> ?c1 \<ge> de" using bt Cons.prems(2) assms(5,6) by linarith
      then have fl: "free_loop ds de busy ?free1 ?c1 = (free', cursor')"
        using Cons.prems(3) False b by (simp add: Let_def)
      have "ds \<le> ?c1" using Cons.prems(1) by linarith
      moreover have "?c1 < de" using c by linarith
      moreover have "?c1 \<le> t" using bt Cons.prems(4) by linarith
      ultimately show ?thesis using Cons.IH[OF _ _ fl _ rest] by blast
    qed
  qed
qed

lemma free_loop_endpoints:
  assumes "free_loop ds de busy free cursor = (free', cursor')"
  shows "(cursor' = cursor \<or> (\<exists>b\<in>set busy. snd b = cursor')) \<and>
         (\<forall>iv\<in>set free'. iv \<in> set free \<or>
            ((fst iv = cursor \<or> (\<exists>b\<in>set busy. snd b = fst iv)) \<and>
             (\<exists>b\<in>set busy. fst b = snd iv)))"
  using assms
proof (induction busy arbitrary: free cursor)
  case Nil
  then show ?case by simp
next
  case (Cons b busy)
  obtain bs be where b: "b = (bs, be)" by (cases b)
  show ?case
  proof (cases "be \<le> ds \<or> bs \<ge> de")
    case True
    then have "free_loop ds de busy free cursor = (free', cursor')"
      using Cons.prems b by simp
    from Cons.IH[OF this] show ?thesis by auto
  next
    case False
    let ?free1 = "(if bs > cursor then free @ [(cursor, min bs de)] else free)"
    let ?c1 = "max cursor be"
    have m: "min bs de = bs" using False by simp
    have f1: "\<forall>iv\<in>set ?free1. iv \<in> set free \<or> (fst iv = cursor \<and> snd iv = bs)"
      using m by auto
    have c1: "?c1 = cursor \<or> ?c1 = be" by linarith
    show ?thesis
    proof (cases "?c1 \<ge> de")
      case True
      then have "(free', cursor') = (?free1, ?c1)"
        using Cons.prems False b by (simp add: Let_def)
      then have e: "free' = ?free1" "cursor' = ?c1" by simp_all
      have "cursor' = cursor \<or> (\<exists>x\<in>set (b # busy). snd x = cursor')"
        using c1 e(2) b by auto
      moreover have "\<forall>iv\<in>set free'. iv \<in> set free \<or>
            ((fst iv = cursor \<or> (\<exists>x\<in>set (b # busy). snd x = fst iv)) \<and>
             (\<exists>x\<in>set (b # busy). fst x = snd iv))"
        using f1 b unfolding e(1) by fastforce
      ultimately show ?thesis by blast
    next
      case c: False
      then have "free_loop ds de busy ?free1 ?c1 = (free', cursor')"
        using Cons.prems False b by (simp add: Let_def)
      from Cons.IH[OF this]
      have ih: "cursor' = ?c1 \<or> (\<exists>x\<in>set busy. snd x = cursor')"
        "\<forall>iv\<in>set free'. iv \<in> set ?free1 \<or>
            ((fst iv = ?c1 \<or> (\<exists>x\<in>set busy. snd x = fst iv)) \<and>
             (\<exists>x\<in>set busy. fst x = snd iv))"
        by blast+
      have "cursor' = cursor \<or> (\<exists>x\<in>set (b # busy). snd x = cursor')"
        using ih(1) c1 b by auto
      moreover have "iv \<in> set free \<or>
            ((fst iv = cursor \<or> (\<exists>x\<in>set (b # busy). snd x = fst iv)) \<and>
             (\<exists>x\<in>set (b # busy). fst x = snd iv))" if "iv \<in> set free'" for iv
      proof (cases "iv \<in> set ?free1")
        case True
        then show ?thesis using f1 b by fastforce
      next
        case False
        then have "(fst iv = ?c1 \<or> (\<exists>x\<in>set busy. snd x = fst iv)) \<and>
             (\<exists>x\<in>set busy. fst x = snd iv)"
          using ih(2) that by blast
        then show ?thesis using c1 b by auto
      qed
      ultimately show ?thesis by blast
    qed
  qed
qed

lemma free_intervals_endpoints:
  assumes "iv \<in> set (free_intervals ds de busy)"
  shows "(fst iv = ds \<or> (\<exists>b\<in>set busy. snd b = fst iv)) \<and>
         (snd iv = de \<or> (\<exists>b\<in>set busy. fst b = snd iv))"
proof -
  obtain free' cursor' where fl: "free_loop ds de busy [] ds = (free', cursor')"
    by (cases "free_loop ds de busy [] ds")
  have e: "cursor' = ds \<or> (\<exists>b\<in>set busy. snd b = cursor')"
      "\<forall>iv\<in>set free'. (fst iv = ds \<or> (\<exists>b\<in>set busy. snd b = fst iv)) \<and>
             (\<exists>b\<in>set busy. fst b = snd iv)"
    using free_loop_endpoints[OF fl] by simp_all
  have fi: "free_intervals ds de busy = (if cursor' < de then free' @ [(cursor', de)] else free')"
    using fl by (simp add: free_intervals_def)
  show ?thesis
  proof (cases "iv \<in> set free'")
    case True
    then show ?thesis using e(2) by blast
  next
    case False
    then have "iv = (cursor', de)" using assms fi by (auto split: if_splits)
    then show ?thesis using e(1) by auto
  qed
qed

lemma free_intervals_cover:
  assumes "ds < de" "ds \<le> t" "t < u" "u \<le> de"
    and "\<forall>b\<in>set busy. snd b \<le> t \<or> u \<le> fst b"
  shows "\<exists>iv\<in>set (free_intervals ds de busy). fst iv \<le> t \<and> u \<le> snd iv"
proof -
  obtain free' cursor' where fl: "free_loop ds de busy [] ds = (free', cursor')"
    by (cases "free_loop ds de busy [] ds")
  have fi: "free_intervals ds de busy = (if cursor' < de then free' @ [(cursor', de)] else free')"
    using fl by (simp add: free_intervals_def)
  have "ds \<le> ds" by simp
  from free_loop_cover[OF this assms(1) fl assms(2,3,4,5)]
  show ?thesis
  proof
    assume "\<exists>iv\<in>set free'. fst iv \<le> t \<and> u \<le> snd iv"
    then show ?thesis using fi by auto
  next
    assume "cursor' \<le> t \<and> cursor' < de"
    then have "(cursor', de) \<in> set (free_intervals ds de busy)" "cursor' \<le> t"
      using fi by simp_all
    then show ?thesis using assms(4) by force
  qed
qed

lemma free_intervals_gaps:
  assumes "ds < de" "sorted (map fst busy)" "\<forall>b\<in>set busy. fst b < snd b"
  shows "g \<in> set (free_intervals ds de busy) \<longleftrightarrow> free_gap ds de busy g"
proof
  assume g: "g \<in> set (free_intervals ds de busy)"
  show "free_gap ds de busy g"
    using free_intervals_props[OF assms(1,2) g] free_intervals_endpoints[OF g]
    by (simp add: free_gap_def)
next
  assume fg: "free_gap ds de busy g"
  then have p: "ds \<le> fst g" "fst g < snd g" "snd g \<le> de"
      "\<forall>b\<in>set busy. snd b \<le> fst g \<or> snd g \<le> fst b"
      "fst g = ds \<or> (\<exists>b\<in>set busy. snd b = fst g)"
      "snd g = de \<or> (\<exists>b\<in>set busy. fst b = snd g)"
    by (simp_all add: free_gap_def)
  obtain iv where iv: "iv \<in> set (free_intervals ds de busy)" "fst iv \<le> fst g" "snd g \<le> snd iv"
    using free_intervals_cover[OF assms(1) p(1,2,3,4)] by blast
  have q: "ds \<le> fst iv" "snd iv \<le> de" "\<forall>b\<in>set busy. snd b \<le> fst iv \<or> snd iv \<le> fst b"
    using free_intervals_props[OF assms(1,2) iv(1)] by simp_all
  have "fst g \<le> fst iv"
  proof (cases "fst g = ds")
    case True
    then show ?thesis using q(1) by simp
  next
    case False
    then obtain b where b: "b \<in> set busy" "snd b = fst g" using p(5) by blast
    have "fst b < snd b" using assms(3) b(1) by blast
    moreover have "snd b \<le> fst iv \<or> snd iv \<le> fst b" using q(3) b(1) by blast
    ultimately show ?thesis using b(2) p(2) iv(3) by linarith
  qed
  moreover have "snd iv \<le> snd g"
  proof (cases "snd g = de")
    case True
    then show ?thesis using q(2) by simp
  next
    case False
    then obtain b where b: "b \<in> set busy" "fst b = snd g" using p(6) by blast
    have "fst b < snd b" using assms(3) b(1) by blast
    moreover have "snd b \<le> fst iv \<or> snd iv \<le> fst b" using q(3) b(1) by blast
    ultimately show ?thesis using b(2) p(2) iv(2) by linarith
  qed
  ultimately have "iv = g" using iv(2,3) by (simp add: prod_eq_iff)
  then show "g \<in> set (free_intervals ds de busy)" using iv(1) by simp
qed

lemma step_us_minutes: "step_us = 15 * MINUTE_US"
  by (simp add: step_us_def timedelta_minutes_def SLOT_STEP_MIN_def)

lemma on_grid_minutes: "on_grid (q * MINUTE_US) \<longleftrightarrow> 15 dvd q"
proof -
  have "0 < MINUTE_US" by (simp add: MINUTE_US_def)
  then have "(15 * MINUTE_US) dvd (q * MINUTE_US) \<longleftrightarrow> 15 dvd q" by simp
  then show ?thesis by (simp add: on_grid_dvd step_us_minutes)
qed

lemma first_candidate_grid:
  assumes "fs mod MINUTE_US = 0"
  shows "on_grid (first_candidate fs) \<and> fs \<le> first_candidate fs \<and>
         first_candidate fs < fs + step_us"
proof -
  define q where "q = fs div MINUTE_US"
  have fs: "fs = q * MINUTE_US" using assms unfolding q_def by auto
  have "minute_of fs mod SLOT_STEP_MIN = (q mod 60) mod 15"
    by (simp add: minute_of_def q_def SLOT_STEP_MIN_def)
  also have "\<dots> = q mod 15" by (simp add: mod_mod_cancel)
  finally have mm: "minute_of fs mod SLOT_STEP_MIN = q mod 15" .
  have pos: "0 < step_us" by (rule step_us_pos)
  show ?thesis
  proof (cases "q mod 15 = 0")
    case True
    then have "first_candidate fs = fs" using mm by (simp add: first_candidate_def)
    moreover have "on_grid fs" using True unfolding fs by (simp add: on_grid_minutes dvd_eq_mod_eq_0)
    ultimately show ?thesis using pos by simp
  next
    case False
    let ?k = "15 - q mod 15"
    have k: "1 \<le> ?k" "?k < 15"
      using False pos_mod_sign[of 15 q] pos_mod_bound[of 15 q] by linarith+
    have x: "fs + timedelta_minutes (SLOT_STEP_MIN - minute_of fs mod SLOT_STEP_MIN) =
             (q + ?k) * MINUTE_US"
      unfolding mm by (simp add: fs timedelta_minutes_def SLOT_STEP_MIN_def algebra_simps)
    have "((q + ?k) * MINUTE_US) mod MINUTE_US = 0" by simp
    then have fc: "first_candidate fs = (q + ?k) * MINUTE_US"
      using False mm x by (simp add: first_candidate_def Let_def replace_second0_def)
    have e: "q + ?k = (q - q mod 15) + 15" by simp
    have "15 dvd (q - q mod 15)" by (rule dvd_minus_mod)
    then have "15 dvd ((q - q mod 15) + 15)" by (rule dvd_add) simp
    then have "15 dvd (q + ?k)" by (simp only: e)
    then have g: "on_grid (first_candidate fs)" unfolding fc by (simp only: on_grid_minutes)
    have m: "0 < MINUTE_US" by (simp add: MINUTE_US_def)
    have lo: "fs \<le> (q + ?k) * MINUTE_US" using k(1) m by (simp add: fs)
    have "(q + ?k) * MINUTE_US < (q + 15) * MINUTE_US" using k(2) m by simp
    then have hi: "(q + ?k) * MINUTE_US < fs + step_us"
      by (simp add: fs step_us_minutes algebra_simps)
    have "fs \<le> first_candidate fs" "first_candidate fs < fs + step_us"
      using lo hi by (simp_all only: fc)
    then show ?thesis using g by simp
  qed
qed

lemma grid_from:
  assumes "on_grid c" "fs \<le> c" "c < fs + step_us"
  shows "(c \<le> t \<and> step_us dvd (t - c)) \<longleftrightarrow> (fs \<le> t \<and> on_grid t)"
proof
  assume a: "c \<le> t \<and> step_us dvd (t - c)"
  have "step_us dvd c" using assms(1) by (simp add: on_grid_dvd)
  then have "step_us dvd (t - c + c)" using a by (intro dvd_add) simp_all
  then show "fs \<le> t \<and> on_grid t" using a assms(2) by (simp add: on_grid_dvd)
next
  assume a: "fs \<le> t \<and> on_grid t"
  have d: "step_us dvd (c - t)" using a assms(1) by (simp add: on_grid_dvd dvd_diff)
  have "c \<le> t"
  proof (rule ccontr)
    assume "\<not> c \<le> t"
    then have "0 < c - t" by simp
    then have "step_us \<le> c - t" using d zdvd_imp_le by blast
    then show False using a assms(3) by linarith
  qed
  moreover have "step_us dvd (t - c)" using d by (simp add: dvd_diff_commute)
  ultimately show "c \<le> t \<and> step_us dvd (t - c)" by simp
qed

lemma candidates_aligned:
  assumes "fs mod MINUTE_US = 0"
  shows "candidates now need fe (first_candidate fs) =
           {t. fs \<le> t \<and> on_grid t \<and> t \<le> fe \<and> offerable now need fe t}"
proof -
  have g: "on_grid (first_candidate fs)" "fs \<le> first_candidate fs"
      "first_candidate fs < fs + step_us"
    using first_candidate_grid[OF assms] by simp_all
  have "\<And>t. (first_candidate fs \<le> t \<and> step_us dvd (t - first_candidate fs)) \<longleftrightarrow>
             (fs \<le> t \<and> on_grid t)"
    using g by (rule grid_from)
  then show ?thesis unfolding candidates_def by blast
qed

lemma offerable_in_day:
  assumes "day_start d < fe" "fe \<le> day_end d" "t \<le> fe" "0 < need"
  shows "offerable now need fe t \<longleftrightarrow> now < t \<and> (t + need \<le> fe \<or> t = day_end d)"
proof -
  have "(t = fe \<and> hhmm_of fe = WORK_END) \<longleftrightarrow> t = day_end d"
    using work_end_is_day_end[OF assms(1,2)] hhmm_of_day_end[of d] assms(2,3) by auto
  moreover have "(t < fe \<and> t + need \<le> fe) \<longleftrightarrow> t + need \<le> fe" using assms(4) by linarith
  ultimately show ?thesis by (simp add: offerable_def)
qed

lemma day_start_whole_minute: "day_start d mod MINUTE_US = 0"
proof -
  have "day_start d = (d * 1440 + 495) * MINUTE_US"
    by (simp add: day_start_val MINUTE_US_def algebra_simps)
  then show ?thesis by simp
qed

lemma gap_candidates:
  assumes "free_gap (day_start d) (day_end d) busy g"
    and "\<forall>b\<in>set busy. snd b mod MINUTE_US = 0" and "0 < need"
  shows "candidates now need (snd g) (first_candidate (fst g)) =
           {t. on_grid t \<and> now < t \<and> fst g \<le> t \<and> t \<le> snd g \<and>
               (t + need \<le> snd g \<or> t = day_end d)}"
proof -
  have p: "day_start d \<le> fst g" "fst g < snd g" "snd g \<le> day_end d"
      "fst g = day_start d \<or> (\<exists>b\<in>set busy. snd b = fst g)"
    using assms(1) by (simp_all add: free_gap_def)
  have al: "fst g mod MINUTE_US = 0"
    using p(4) assms(2) day_start_whole_minute by auto
  have lt: "day_start d < snd g" using p(1,2) by linarith
  have "t \<in> candidates now need (snd g) (first_candidate (fst g)) \<longleftrightarrow>
        on_grid t \<and> now < t \<and> fst g \<le> t \<and> t \<le> snd g \<and>
        (t + need \<le> snd g \<or> t = day_end d)" for t
  proof (cases "t \<le> snd g")
    case True
    show ?thesis
      using offerable_in_day[OF lt p(3) True assms(3), of now] True
      by (auto simp: candidates_aligned[OF al])
  next
    case False
    then show ?thesis by (simp add: candidates_aligned[OF al])
  qed
  then show ?thesis by blast
qed

lemma free_slots_characterisation:
  assumes "list_busy_intervals orc d = Inr busy"
    and "\<forall>b\<in>set busy. fst b < snd b" and "\<forall>b\<in>set busy. snd b mod MINUTE_US = 0"
    and "0 < m"
  shows "\<exists>slots. compute_free_slots_for_date orc now d m = Inr slots \<and>
           sorted slots \<and> distinct slots \<and>
           set slots =
             {t. on_grid t \<and> now < t \<and>
                 (\<exists>g. free_gap (day_start d) (day_end d) busy g \<and> fst g \<le> t \<and> t \<le> snd g \<and>
                      (t + timedelta_minutes m \<le> snd g \<or> t = day_end d))}"
proof -
  let ?need = "timedelta_minutes m"
  have need: "0 < ?need" using assms(4) by (simp add: timedelta_minutes_def MINUTE_US_def)
  obtain slots where s: "compute_free_slots_for_date orc now d m = Inr slots"
      "sorted slots" "distinct slots"
      "set slots = (\<Union>iv\<in>set (free_intervals (day_start d) (day_end d) busy).
                        candidates now ?need (snd iv) (first_candidate (fst iv)))"
    using compute_free_slots_set[OF assms(1), of now m] by blast
  have gaps: "\<And>g. g \<in> set (free_intervals (day_start d) (day_end d) busy) \<longleftrightarrow>
                 free_gap (day_start d) (day_end d) busy g"
    using free_intervals_gaps[OF day_start_lt_day_end list_busy_sorted[OF assms(1)] assms(2)]
    by blast
  have "t \<in> set slots \<longleftrightarrow>
        on_grid t \<and> now < t \<and>
        (\<exists>g. free_gap (day_start d) (day_end d) busy g \<and> fst g \<le> t \<and> t \<le> snd g \<and>
             (t + ?need \<le> snd g \<or> t = day_end d))" for t
  proof
    assume "t \<in> set slots"
    then obtain g where g: "g \<in> set (free_intervals (day_start d) (day_end d) busy)"
        "t \<in> candidates now ?need (snd g) (first_candidate (fst g))"
      unfolding s(4) by blast
    have fg: "free_gap (day_start d) (day_end d) busy g" using g(1) gaps by blast
    show "on_grid t \<and> now < t \<and>
        (\<exists>g. free_gap (day_start d) (day_end d) busy g \<and> fst g \<le> t \<and> t \<le> snd g \<and>
             (t + ?need \<le> snd g \<or> t = day_end d))"
      using g(2) fg unfolding gap_candidates[OF fg assms(3) need] by blast
  next
    assume a: "on_grid t \<and> now < t \<and>
        (\<exists>g. free_gap (day_start d) (day_end d) busy g \<and> fst g \<le> t \<and> t \<le> snd g \<and>
             (t + ?need \<le> snd g \<or> t = day_end d))"
    then obtain g where fg: "free_gap (day_start d) (day_end d) busy g"
        and c: "fst g \<le> t" "t \<le> snd g" "t + ?need \<le> snd g \<or> t = day_end d"
      by blast
    have "t \<in> candidates now ?need (snd g) (first_candidate (fst g))"
      unfolding gap_candidates[OF fg assms(3) need] using a c by simp
    moreover have "g \<in> set (free_intervals (day_start d) (day_end d) busy)"
      using fg gaps by blast
    ultimately show "t \<in> set slots" unfolding s(4) by blast
  qed
  then have "set slots =
             {t. on_grid t \<and> now < t \<and>
                 (\<exists>g. free_gap (day_start d) (day_end d) busy g \<and> fst g \<le> t \<and> t \<le> snd g \<and>
                      (t + ?need \<le> snd g \<or> t = day_end d))}"
    by blast
  then show ?thesis using s(1,2,3) by blast
qed

end
